theory Spec2Isabelle
  imports Complex_Main "HOL-Library.Char_ord" "HOL-Library.List_Lexorder" "HOL-Library.AList"
    "HOL-Library.Multiset"
begin

section \<open>Bio.Phylo trees as an object store\<close>

text \<open>
  \<^verbatim>\<open>covizu/beadplot.py\<close> works on a \<^verbatim>\<open>Bio.Phylo\<close> tree and mutates it in place:
  it removes entries of \<^verbatim>\<open>parent.clades\<close>, extends that list and overwrites
  \<^verbatim>\<open>parent.name\<close>, while it walks lists of node references taken earlier, and it keys
  dictionaries by node objects. Node objects are compared and hashed by identity
  (\<^verbatim>\<open>Clade\<close> defines neither \<^verbatim>\<open>__eq__\<close> nor \<^verbatim>\<open>__hash__\<close>). The model therefore keeps
  the objects in a store: a reference is a natural number, the store maps a reference
  to the fields of the object, and a child list is a list of references.

  Python floats are modelled as rationals: the code only compares branch lengths
  (\<^verbatim>\<open>>\<close>) and rounds them for the edge list.
\<close>

datatype error = TypeError | KeyError | ValueError | IndexError | AttributeError

type_synonym ref = nat

record clade =
  name :: "string option"
  branch_length :: "rat option"
  confidence :: "rat option"
  clades :: "ref list"
  labels :: "string list option"

type_synonym heap = "ref \<Rightarrow> clade"

type_synonym parents = "ref \<rightharpoonup> ref"

subsection \<open>Traversals of the library\<close>

text \<open>
  \<^verbatim>\<open>find_clades(order='preorder')\<close> yields a node and then, for each child in
  order, the nodes below it; \<^verbatim>\<open>find_clades(order='level')\<close> takes nodes from the
  front of a queue and appends their children at the back. Both are written with an
  explicit work list. On a store that is not a finite tree they do not return: that is
  the value \<open>None\<close>.
\<close>

partial_function (option) preorder_traverse :: "heap \<Rightarrow> ref list \<Rightarrow> ref list option" where
  "preorder_traverse h stack =
     (case stack of
        [] \<Rightarrow> Some []
      | v # rest \<Rightarrow>
          Option.bind (preorder_traverse h (clades (h v) @ rest)) (\<lambda>xs. Some (v # xs)))"

partial_function (option) level_traverse :: "heap \<Rightarrow> ref list \<Rightarrow> ref list option" where
  "level_traverse h queue =
     (case queue of
        [] \<Rightarrow> Some []
      | v # rest \<Rightarrow>
          Option.bind (level_traverse h (rest @ clades (h v))) (\<lambda>xs. Some (v # xs)))"

declare preorder_traverse.simps [code] level_traverse.simps [code]

definition is_terminal :: "heap \<Rightarrow> ref \<Rightarrow> bool" where
  "is_terminal h v = (clades (h v) = [])"

definition get_terminals :: "heap \<Rightarrow> ref \<Rightarrow> ref list option" where
  "get_terminals h rt = map_option (filter (is_terminal h)) (preorder_traverse h [rt])"

definition get_nonterminals :: "heap \<Rightarrow> ref \<Rightarrow> ref list option" where
  "get_nonterminals h rt =
     map_option (filter (\<lambda>v. \<not> is_terminal h v)) (preorder_traverse h [rt])"

subsection \<open>\<^verbatim>\<open>get_parents\<close>\<close>

fun get_parents_loop :: "heap \<Rightarrow> parents \<Rightarrow> ref list \<Rightarrow> parents" where
  "get_parents_loop h ps [] = ps"
| "get_parents_loop h ps (c # cs) =
     get_parents_loop h (fold (\<lambda>child m. m(child \<mapsto> c)) (clades (h c)) ps) cs"

definition get_parents :: "heap \<Rightarrow> ref \<Rightarrow> parents option" where
  "get_parents h rt = map_option (get_parents_loop h Map.empty) (level_traverse h [rt])"

subsection \<open>\<^verbatim>\<open>collapse_polytomies\<close>\<close>

text \<open>A \<^verbatim>\<open>for\<close> loop whose body may raise: the first exception ends it.\<close>

fun for_each :: "('s \<Rightarrow> 'a \<Rightarrow> error + 's) \<Rightarrow> 's \<Rightarrow> 'a list \<Rightarrow> error + 's" where
  "for_each f s [] = Inr s"
| "for_each f s (x # xs) =
     (case f s x of
        Inl e \<Rightarrow> Inl e
      | Inr s' \<Rightarrow> for_each f s' xs)"

definition join_bar :: "string \<Rightarrow> string \<Rightarrow> string" where
  "join_bar a b = a @ ''|'' @ b"

text \<open>
  The body of the first loop, for one \<^verbatim>\<open>tip\<close>. \<^verbatim>\<open>tip.branch_length > minlen\<close> raises
  \<^verbatim>\<open>TypeError\<close> in Python 3 when the length is \<^verbatim>\<open>None\<close>; \<^verbatim>\<open>parents[tip]\<close> raises
  \<^verbatim>\<open>KeyError\<close>; \<^verbatim>\<open>list.remove\<close> raises \<^verbatim>\<open>ValueError\<close>; \<^verbatim>\<open>'|'.join\<close> raises
  \<^verbatim>\<open>TypeError\<close> on an item that is not a string.
\<close>

definition prune_tip :: "rat \<Rightarrow> parents \<Rightarrow> heap \<Rightarrow> ref \<Rightarrow> error + heap" where
  "prune_tip minlen ps h tip =
     (case branch_length (h tip) of
        None \<Rightarrow> Inl TypeError
      | Some b \<Rightarrow>
          if b > minlen then Inr h
          else (case ps tip of
                  None \<Rightarrow> Inl KeyError
                | Some parent \<Rightarrow>
                    if tip \<notin> set (clades (h parent)) then Inl ValueError
                    else
                      let h1 = h(parent := (h parent)\<lparr>clades := remove1 tip (clades (h parent))\<rparr>)
                      in (case name (h1 parent) of
                            None \<Rightarrow> Inr (h1(parent := (h1 parent)\<lparr>name := name (h1 tip)\<rparr>))
                          | Some pn \<Rightarrow>
                              (case name (h1 tip) of
                                 None \<Rightarrow> Inl TypeError
                               | Some tn \<Rightarrow>
                                   Inr (h1(parent := (h1 parent)\<lparr>name := Some (join_bar pn tn)\<rparr>))))))"

text \<open>
  The body of the second loop, for one \<^verbatim>\<open>node\<close>. The loop also writes the
  \<^verbatim>\<open>parents\<close> dictionary, so the state is the store and the dictionary.
\<close>

definition skip_node :: "ref \<Rightarrow> rat \<Rightarrow> heap \<Rightarrow> ref \<Rightarrow> bool" where
  "skip_node rt minlen h node =
     (case branch_length (h node) of
        None \<Rightarrow> True
      | Some b \<Rightarrow> b > minlen \<or> node = rt)"

definition truthy :: "string option \<Rightarrow> bool" where
  "truthy s = (case s of None \<Rightarrow> False | Some n \<Rightarrow> n \<noteq> [])"

definition splice_node :: "ref \<Rightarrow> rat \<Rightarrow> heap \<times> parents \<Rightarrow> ref \<Rightarrow> error + heap \<times> parents" where
  "splice_node rt minlen st node =
     (let h = fst st; ps = snd st in
      if skip_node rt minlen h node then Inr (h, ps)
      else (case ps node of
              None \<Rightarrow> Inl KeyError
            | Some parent \<Rightarrow>
                if node \<notin> set (clades (h parent)) then Inl ValueError
                else
                  let h1 = h(parent := (h parent)\<lparr>clades := remove1 node (clades (h parent))\<rparr>);
                      h2 = h1(parent := (h1 parent)\<lparr>clades := clades (h1 parent) @ clades (h1 node)\<rparr>);
                      ps' = fold (\<lambda>child m. m(child \<mapsto> parent)) (clades (h2 node)) ps
                  in if truthy (name (h2 node)) then
                       (case name (h2 parent) of
                          None \<Rightarrow> Inr (h2(parent := (h2 parent)\<lparr>name := name (h2 node)\<rparr>), ps')
                        | Some pn \<Rightarrow>
                            Inr (h2(parent := (h2 parent)\<lparr>name := Some (join_bar pn (the (name (h2 node))))\<rparr>), ps'))
                     else Inr (h2, ps')))"

text \<open>
  The two loops of \<^verbatim>\<open>collapse_polytomies\<close>. Each walks a list that the library
  builds before the loop starts (\<^verbatim>\<open>get_terminals\<close>, \<^verbatim>\<open>get_nonterminals\<close>), so the
  removals of the loop do not change what it visits.
\<close>

definition prune_tips :: "rat \<Rightarrow> parents \<Rightarrow> heap \<Rightarrow> ref \<Rightarrow> (error + heap) option" where
  "prune_tips minlen ps h rt =
     map_option (for_each (prune_tip minlen ps) h) (get_terminals h rt)"

definition remove_internal_branches ::
  "rat \<Rightarrow> parents \<Rightarrow> heap \<Rightarrow> ref \<Rightarrow> (error + heap \<times> parents) option" where
  "remove_internal_branches minlen ps h rt =
     map_option (for_each (splice_node rt minlen) (h, ps)) (get_nonterminals h rt)"

definition collapse_polytomies :: "heap \<Rightarrow> ref \<Rightarrow> rat \<Rightarrow> (error + heap) option" where
  "collapse_polytomies h rt minlen =
     (case get_parents h rt of
        None \<Rightarrow> None
      | Some ps \<Rightarrow>
          (case prune_tips minlen ps h rt of
             None \<Rightarrow> None
           | Some (Inl e) \<Rightarrow> Some (Inl e)
           | Some (Inr h1) \<Rightarrow>
               (case remove_internal_branches minlen ps h1 rt of
                  None \<Rightarrow> None
                | Some (Inl e) \<Rightarrow> Some (Inl e)
                | Some (Inr st) \<Rightarrow> Some (Inr (fst st)))))"

subsection \<open>\<^verbatim>\<open>annotate_tree\<close>\<close>

text \<open>\<^verbatim>\<open>str.split('|')\<close>: the pieces between the separators, empty pieces included.\<close>

fun split_bar :: "string \<Rightarrow> string list" where
  "split_bar [] = [[]]"
| "split_bar (c # cs) =
     (if c = CHR ''|'' then [] # split_bar cs
      else (case split_bar cs of
              [] \<Rightarrow> [[c]]
            | w # ws \<Rightarrow> (c # w) # ws))"

type_synonym label_dict = "string \<rightharpoonup> string list"

text \<open>\<^verbatim>\<open>for tn in names: node.labels.extend(label_dict[tn])\<close>, from the list so far.\<close>

definition extend_labels :: "label_dict \<Rightarrow> string list \<Rightarrow> string list \<Rightarrow> error + string list" where
  "extend_labels d acc tns =
     for_each (\<lambda>ls tn. case d tn of None \<Rightarrow> Inl KeyError | Some new \<Rightarrow> Inr (ls @ new)) acc tns"

definition label_tip :: "label_dict \<Rightarrow> heap \<Rightarrow> ref \<Rightarrow> error + heap" where
  "label_tip d h tip =
     (case name (h tip) of
        None \<Rightarrow> Inl TypeError
      | Some n \<Rightarrow>
          if CHR ''|'' \<in> set n then
            (case extend_labels d [] (split_bar n) of
               Inl e \<Rightarrow> Inl e
             | Inr ls \<Rightarrow> Inr (h(tip := (h tip)\<lparr>labels := Some ls\<rparr>)))
          else
            (case d n of
               None \<Rightarrow> Inl KeyError
             | Some ls \<Rightarrow> Inr (h(tip := (h tip)\<lparr>labels := Some ls\<rparr>))))"

definition label_node :: "label_dict \<Rightarrow> heap \<Rightarrow> ref \<Rightarrow> error + heap" where
  "label_node d h node =
     (case name (h node) of
        None \<Rightarrow> Inr (h(node := (h node)\<lparr>name := Some [], labels := Some []\<rparr>))
      | Some n \<Rightarrow>
          (case extend_labels d [] (split_bar n) of
             Inl e \<Rightarrow> Inl e
           | Inr ls \<Rightarrow> Inr (h(node := (h node)\<lparr>labels := Some ls\<rparr>))))"

text \<open>
  The names of the tips that are no key of the label table (\<^verbatim>\<open>set_diff\<close>). The four
  calls of \<^verbatim>\<open>callback\<close> are one diagnostic; \<^verbatim>\<open>callback\<close> is an optional argument, here
  the flag that it was given.
\<close>

definition set_diff :: "label_dict \<Rightarrow> heap \<Rightarrow> ref list \<Rightarrow> string option list" where
  "set_diff d h tips =
     remdups (filter (\<lambda>n. case n of None \<Rightarrow> True | Some s \<Rightarrow> d s = None)
                (map (\<lambda>tip. name (h tip)) tips))"

datatype diagnostic = Mismatch "string option list"

definition validate :: "label_dict \<Rightarrow> heap \<Rightarrow> ref list \<Rightarrow> bool \<Rightarrow> diagnostic list" where
  "validate d h tips callback =
     (if set_diff d h tips \<noteq> [] \<and> callback then [Mismatch (set_diff d h tips)] else [])"

definition annotate_tree ::
  "heap \<Rightarrow> ref \<Rightarrow> label_dict \<Rightarrow> rat \<Rightarrow> bool \<Rightarrow> (diagnostic list \<times> (error + heap)) option" where
  "annotate_tree h rt d minlen callback =
     (case get_terminals h rt of
        None \<Rightarrow> None
      | Some tips0 \<Rightarrow>
          let log = validate d h tips0 callback in
          (case collapse_polytomies h rt minlen of
             None \<Rightarrow> None
           | Some (Inl e) \<Rightarrow> Some (log, Inl e)
           | Some (Inr h1) \<Rightarrow>
               (case get_terminals h1 rt of
                  None \<Rightarrow> None
                | Some tips \<Rightarrow>
                    (case for_each (label_tip d) h1 tips of
                       Inl e \<Rightarrow> Some (log, Inl e)
                     | Inr h2 \<Rightarrow>
                         (case get_nonterminals h2 rt of
                            None \<Rightarrow> None
                          | Some nodes \<Rightarrow> Some (log, for_each (label_node d) h2 nodes))))))"

subsection \<open>\<^verbatim>\<open>serialize_tree\<close>\<close>

text \<open>\<^verbatim>\<open>str\<close> of a counter: its decimal digits.\<close>

definition digit :: "nat \<Rightarrow> char" where
  "digit n = ''0123456789'' ! n"

function str :: "nat \<Rightarrow> string" where
  "str n = (if n < 10 then [digit n] else str (n div 10) @ [digit (n mod 10)])"
  by pat_completeness auto
termination
  by (relation "measure id") auto

declare str.simps [simp del]

text \<open>\<^verbatim>\<open>round(x, 2)\<close> on the exact value: to the nearest hundredth, ties to even.\<close>

definition round2 :: "rat \<Rightarrow> rat" where
  "round2 x =
     (let y = x * 100; f = \<lfloor>y\<rfloor>; d = y - of_int f
      in of_int (if d < 1 / 2 then f else if 1 / 2 < d then f + 1
                 else if even f then f else f + 1) / 100)"

record graph =
  nodes :: "(string \<times> string list list) list"
  edges :: "(string \<times> string \<times> rat \<times> rat option) list"

text \<open>
  The dictionary \<^verbatim>\<open>obj['nodes']\<close> keeps its keys in the order of their first
  insertion and a second \<^verbatim>\<open>update\<close> of a key replaces its value where it stands:
  an association list with \<^const>\<open>AList.update\<close>.
\<close>

type_synonym ser_state = "graph \<times> (ref \<rightharpoonup> string) \<times> nat"

definition node_variant :: "nat \<Rightarrow> string list \<Rightarrow> error + string \<times> string list list \<times> nat" where
  "node_variant us_count ls =
     (if ls \<noteq> [] then
        let intermed = sort (map (\<lambda>label. rev (split_bar label)) ls) in
        if length (hd intermed) \<le> 3 then Inl IndexError
        else Inr (hd intermed ! 3, intermed, us_count)
      else Inr (''unsampled'' @ str us_count, [], us_count + 1))"

definition serialize_node :: "heap \<Rightarrow> ref \<Rightarrow> parents \<Rightarrow> ser_state \<Rightarrow> ref \<Rightarrow> error + ser_state" where
  "serialize_node h rt ps st node =
     (case st of (obj, variant_d, us_count) \<Rightarrow>
      (case labels (h node) of
         None \<Rightarrow> Inl AttributeError
       | Some ls \<Rightarrow>
           (case node_variant us_count ls of
              Inl e \<Rightarrow> Inl e
            | Inr (variant, intermed, us_count') \<Rightarrow>
                let obj1 = obj\<lparr>nodes := AList.update variant intermed (nodes obj)\<rparr>;
                    variant_d' = variant_d(node \<mapsto> variant)
                in if node = rt then Inr (obj1, variant_d', us_count')
                   else (case ps node of
                           None \<Rightarrow> Inl KeyError
                         | Some parent \<Rightarrow>
                             (case variant_d' parent of
                                None \<Rightarrow> Inl KeyError
                              | Some pv \<Rightarrow>
                                  (case branch_length (h node) of
                                     None \<Rightarrow> Inl TypeError
                                   | Some b \<Rightarrow>
                                       Inr (obj1\<lparr>edges := edges obj1 @
                                                   [(pv, variant, round2 b, confidence (h node))]\<rparr>,
                                            variant_d', us_count')))))))"

definition serialize_loop :: "heap \<Rightarrow> ref \<Rightarrow> (error + ser_state) option" where
  "serialize_loop h rt =
     (case get_parents h rt of
        None \<Rightarrow> None
      | Some ps \<Rightarrow>
          (case level_traverse h [rt] of
             None \<Rightarrow> None
           | Some order \<Rightarrow>
               Some (for_each (serialize_node h rt ps)
                       (\<lparr>nodes = [], edges = []\<rparr>, Map.empty, 0) order)))"

definition serialize_tree :: "heap \<Rightarrow> ref \<Rightarrow> (error + graph) option" where
  "serialize_tree h rt = map_option (map_sum id fst) (serialize_loop h rt)"

section \<open>Notions used by the properties\<close>

text \<open>
  The input invariant of the data model: the nodes \<open>S\<close> under the root form a finite
  rooted tree. Child lists stay inside \<open>S\<close>, have no duplicates and never hold the
  root; no node has two parents; every node but the root has one; and no node is below
  itself (\<open>rk\<close> decreases from parent to child).
\<close>

definition tree_nodes :: "heap \<Rightarrow> ref \<Rightarrow> ref set \<Rightarrow> (ref \<Rightarrow> nat) \<Rightarrow> bool" where
  "tree_nodes h rt S rk =
     (finite S \<and> rt \<in> S \<and>
      (\<forall>p\<in>S. distinct (clades (h p)) \<and>
              (\<forall>c\<in>set (clades (h p)). c \<in> S \<and> c \<noteq> rt \<and> rk c < rk p)) \<and>
      (\<forall>p\<in>S. \<forall>q\<in>S. \<forall>c. c \<in> set (clades (h p)) \<and> c \<in> set (clades (h q)) \<longrightarrow> p = q) \<and>
      (\<forall>n\<in>S. n \<noteq> rt \<longrightarrow> (\<exists>p\<in>S. n \<in> set (clades (h p)))))"

text \<open>A branch that neither pass may remove: its length is undefined or above the threshold.\<close>

definition long_branch :: "rat \<Rightarrow> heap \<Rightarrow> ref \<Rightarrow> bool" where
  "long_branch minlen h v =
     (case branch_length (h v) of None \<Rightarrow> True | Some b \<Rightarrow> minlen < b)"

text \<open>
  The post-condition of the specification, on the list of the surviving nodes: no node
  outside the root has a defined branch length at or below the threshold.
\<close>

definition no_short_branch :: "ref \<Rightarrow> rat \<Rightarrow> heap \<Rightarrow> ref list \<Rightarrow> bool" where
  "no_short_branch rt minlen h vs = list_all (\<lambda>v. v = rt \<or> long_branch minlen h v) vs"

text \<open>What a caller sees of a tree: its nodes in preorder, each with its fields.\<close>

definition surviving :: "heap \<Rightarrow> ref \<Rightarrow> (ref \<times> clade) list option" where
  "surviving h rt = map_option (map (\<lambda>v. (v, h v))) (preorder_traverse h [rt])"

definition collapse_result :: "heap \<Rightarrow> ref \<Rightarrow> rat \<Rightarrow> (error + (ref \<times> clade) list) option" where
  "collapse_result h rt minlen =
     (case collapse_polytomies h rt minlen of
        None \<Rightarrow> None
      | Some (Inl e) \<Rightarrow> Some (Inl e)
      | Some (Inr h') \<Rightarrow> map_option Inr (surviving h' rt))"

text \<open>The Collapser run a second time on the tree of a first run.\<close>

definition collapse_again :: "heap \<Rightarrow> ref \<Rightarrow> rat \<Rightarrow> (error + (ref \<times> clade) list) option" where
  "collapse_again h rt minlen =
     (case collapse_polytomies h rt minlen of
        None \<Rightarrow> None
      | Some (Inl e) \<Rightarrow> Some (Inl e)
      | Some (Inr h') \<Rightarrow> collapse_result h' rt minlen)"

text \<open>The post-condition evaluated on the tree that \<^verbatim>\<open>collapse_polytomies\<close> returns.\<close>

definition collapse_postcondition :: "heap \<Rightarrow> ref \<Rightarrow> rat \<Rightarrow> (error + bool) option" where
  "collapse_postcondition h rt minlen =
     (case collapse_polytomies h rt minlen of
        None \<Rightarrow> None
      | Some (Inl e) \<Rightarrow> Some (Inl e)
      | Some (Inr h') \<Rightarrow>
          map_option (\<lambda>vs. Inr (no_short_branch rt minlen h' vs)) (preorder_traverse h' [rt]))"

text \<open>
  Whether every tip of a tree has a defined branch length above the threshold.
\<close>

definition tips_above :: "rat \<Rightarrow> heap \<Rightarrow> ref \<Rightarrow> bool" where
  "tips_above minlen h rt =
     (case get_terminals h rt of
        None \<Rightarrow> False
      | Some tips \<Rightarrow>
          list_all (\<lambda>t. case branch_length (h t) of None \<Rightarrow> False | Some b \<Rightarrow> minlen < b) tips)"

text \<open>
  Every tip of the tree on \<open>S\<close> carries a branch length and a name.
\<close>

definition tips_defined :: "heap \<Rightarrow> ref set \<Rightarrow> bool" where
  "tips_defined h S =
     (\<forall>t\<in>S. is_terminal h t \<longrightarrow> branch_length (h t) \<noteq> None \<and> name (h t) \<noteq> None)"

text \<open>
  The identifiers that \<^verbatim>\<open>annotate_tree\<close> looks up for a tip of name \<open>n\<close>: the pieces of the
  name when it holds the separator, the name itself otherwise.
\<close>

definition tip_identifiers :: "string \<Rightarrow> string list" where
  "tip_identifiers n = (if CHR ''|'' \<in> set n then split_bar n else [n])"

text \<open>
  The labels of a node as \<^verbatim>\<open>serialize_tree\<close> compares them: each split at the separator,
  the fields in reverse order.
\<close>

definition reversed_fields :: "string list \<Rightarrow> string list list" where
  "reversed_fields ls = map (\<lambda>label. rev (split_bar label)) ls"

text \<open>
  The number of nodes with an empty list of labels among the first \<open>i\<close> nodes of a
  traversal.
\<close>

definition unsampled_before :: "heap \<Rightarrow> ref list \<Rightarrow> nat \<Rightarrow> nat" where
  "unsampled_before h order i = length (filter (\<lambda>v. labels (h v) = Some []) (take i order))"

text \<open>
  What \<^verbatim>\<open>serialize_tree\<close> records for a node under its identifier: the sorted list of
  its labels, split and reversed; the empty list for a node without labels.
\<close>

definition node_payload :: "heap \<Rightarrow> ref \<Rightarrow> string list list" where
  "node_payload h v = (case labels (h v) of None \<Rightarrow> [] | Some ls \<Rightarrow> sort (reversed_fields ls))"

text \<open>
  The edge that \<^verbatim>\<open>serialize_tree\<close> appends for a node other than the root, read from
  the parent index and the identifiers of the nodes.
\<close>

definition edge_of ::
  "heap \<Rightarrow> parents \<Rightarrow> (ref \<rightharpoonup> string) \<Rightarrow> ref \<Rightarrow> string \<times> string \<times> rat \<times> rat option" where
  "edge_of h ps vd v =
     (the (vd (the (ps v))), the (vd v), round2 (the (branch_length (h v))), confidence (h v))"

subsection \<open>Invariants of the two loops\<close>

text \<open>
  The nodes below a node, the node included.
\<close>

inductive_set reach :: "heap \<Rightarrow> ref \<Rightarrow> ref set" for h :: heap and v :: ref where
  reach_self: "v \<in> reach h v"
| reach_child: "x \<in> reach h v \<Longrightarrow> c \<in> set (clades (h x)) \<Longrightarrow> c \<in> reach h v"

text \<open>
  The parent index is right for the tree on \<open>S\<close>: it maps every child to the node
  that holds it, and it has no entry for the root.
\<close>

definition parents_ok :: "heap \<Rightarrow> ref \<Rightarrow> ref set \<Rightarrow> parents \<Rightarrow> bool" where
  "parents_ok h rt S ps = ((\<forall>p\<in>S. \<forall>c\<in>set (clades (h p)). ps c = Some p) \<and> ps rt = None)"

text \<open>
  The first loop, with \<open>rest\<close> still to visit: the store holds a tree on a set \<open>S\<close>;
  branch lengths and the objects of the tips are as at the start; a child list is the
  original one without the pruned tips; and the nodes pruned so far are the visited
  tips whose branch is not long.
\<close>

definition pass1_inv ::
  "ref \<Rightarrow> rat \<Rightarrow> (ref \<Rightarrow> nat) \<Rightarrow> parents \<Rightarrow> heap \<Rightarrow> ref set \<Rightarrow> ref list \<Rightarrow> heap \<Rightarrow> ref list \<Rightarrow> bool" where
  "pass1_inv rt minlen rk ps h0 S0 tips0 h rest =
     (\<exists>S. tree_nodes h rt S rk \<and> parents_ok h rt S ps \<and> set rest \<subseteq> S \<and> distinct rest \<and>
          S \<subseteq> S0 \<and>
          (\<forall>n. branch_length (h n) = branch_length (h0 n)) \<and>
          (\<forall>n. clades (h0 n) = [] \<longrightarrow> h n = h0 n) \<and>
          (\<forall>n\<in>S0. clades (h n) = filter (\<lambda>c. c \<in> S) (clades (h0 n))) \<and>
          S0 - S = {t \<in> set tips0 - set rest. \<not> long_branch minlen h0 t})"

text \<open>
  The second loop likewise: the nodes spliced out so far are the visited ones that
  the loop does not skip, and a node with children had children when the loop began.
\<close>

definition pass2_inv ::
  "ref \<Rightarrow> rat \<Rightarrow> (ref \<Rightarrow> nat) \<Rightarrow> heap \<Rightarrow> ref set \<Rightarrow> ref list \<Rightarrow> heap \<times> parents \<Rightarrow> ref list \<Rightarrow> bool" where
  "pass2_inv rt minlen rk h1 S1 nodes0 st rest =
     (\<exists>S. tree_nodes (fst st) rt S rk \<and> parents_ok (fst st) rt S (snd st) \<and>
          set rest \<subseteq> S \<and> distinct rest \<and> S \<subseteq> S1 \<and>
          (\<forall>n. branch_length (fst st n) = branch_length (h1 n)) \<and>
          (\<forall>n. clades (h1 n) = [] \<longrightarrow> fst st n = h1 n) \<and>
          (\<forall>n\<in>S. clades (fst st n) \<noteq> [] \<longrightarrow> clades (h1 n) \<noteq> []) \<and>
          S1 - S = {n \<in> set nodes0 - set rest. \<not> skip_node rt minlen h1 n})"

section \<open>Example trees\<close>

definition new_clade ::
  "string option \<Rightarrow> rat option \<Rightarrow> ref list \<Rightarrow> string list option \<Rightarrow> clade" where
  "new_clade n b cs ls =
     \<lparr>name = n, branch_length = b, confidence = None, clades = cs, labels = ls\<rparr>"

definition no_objects :: heap where
  "no_objects = (\<lambda>_. new_clade None None [] None)"

text \<open>\<^verbatim>\<open>((A:0.1,B:0.1):0.1);\<close> Both tips of the inner node are at or below 0.5.\<close>

definition ex_emptied :: heap where
  "ex_emptied = no_objects
     (0 := new_clade None None [1] None,
      1 := new_clade None (Some (1 / 10)) [2, 3] None,
      2 := new_clade (Some ''A'') (Some (1 / 10)) [] None,
      3 := new_clade (Some ''B'') (Some (1 / 10)) [] None)"

text \<open>\<^verbatim>\<open>((A:0,B:0.6):0.3,C:0.7);\<close>\<close>

definition ex_spliced :: heap where
  "ex_spliced = no_objects
     (0 := new_clade None None [1, 4] None,
      1 := new_clade None (Some (3 / 10)) [2, 3] None,
      2 := new_clade (Some ''A'') (Some 0) [] None,
      3 := new_clade (Some ''B'') (Some (6 / 10)) [] None,
      4 := new_clade (Some ''C'') (Some (7 / 10)) [] None)"

text \<open>\<^verbatim>\<open>(A,B:0.6);\<close> The tip \<^verbatim>\<open>A\<close> has no branch length.\<close>

definition ex_undefined_tip :: heap where
  "ex_undefined_tip = no_objects
     (0 := new_clade None None [1, 2] None,
      1 := new_clade (Some ''A'') None [] None,
      2 := new_clade (Some ''B'') (Some (6 / 10)) [] None)"

text \<open>\<^verbatim>\<open>(A:0.6,B:0.7)'';\<close> The root carries the empty string as its name.\<close>

definition ex_empty_name :: heap where
  "ex_empty_name = no_objects
     (0 := new_clade (Some []) None [1, 2] None,
      1 := new_clade (Some ''A'') (Some (6 / 10)) [] None,
      2 := new_clade (Some ''B'') (Some (7 / 10)) [] None)"

definition ex_table :: label_dict where
  "ex_table = map_of
     [(''A'', [''A|acc1|r|c|2021-01-01'']),
      (''B'', [''B|acc2|r|c|2021-02-01''])]"

text \<open>An annotated tree with three internal nodes that carry no labels.\<close>

definition ex_unsampled :: heap where
  "ex_unsampled = no_objects
     (0 := new_clade (Some []) None [1, 2] (Some []),
      1 := new_clade (Some []) (Some 1) [3] (Some []),
      2 := new_clade (Some []) (Some 2) [4] (Some []),
      3 := new_clade (Some ''C'') (Some 2) [] (Some [''C|acc9|r|c|2021-01-03'']),
      4 := new_clade (Some ''D'') (Some 2) [] (Some [''D|acc7|r|c|2021-01-03'']))"

text \<open>An annotated tree in which the root and a tip share their earliest accession.\<close>

definition ex_shared_accession :: heap where
  "ex_shared_accession = no_objects
     (0 := new_clade (Some ''A'') None [1, 2] (Some [''A|acc1|r|c|2021-01-01'']),
      1 := new_clade (Some ''B'') (Some 1) [] (Some [''B|acc1|r|c|2021-01-02'']),
      2 := new_clade (Some ''C'') (Some 2) [] (Some [''C|acc9|r|c|2021-01-03'']))"

text \<open>
  A rank for the example trees, the parent index of one of them, and the stores that
  the Collapser leaves.
\<close>

definition ex_rank :: "ref \<Rightarrow> nat" where
  "ex_rank = (\<lambda>_. 0)(0 := 2, 1 := 1)"

definition ex_spliced_parents :: parents where
  "ex_spliced_parents = [1 \<mapsto> 0, 4 \<mapsto> 0, 2 \<mapsto> 1, 3 \<mapsto> 1]"

definition ex_emptied_collapsed :: heap where
  "ex_emptied_collapsed = ex_emptied(1 := new_clade (Some ''A|B'') (Some (1 / 10)) [] None)"

definition ex_spliced_pruned :: heap where
  "ex_spliced_pruned = ex_spliced(1 := new_clade (Some ''A'') (Some (3 / 10)) [3] None)"

definition ex_spliced_collapsed :: heap where
  "ex_spliced_collapsed = ex_spliced
     (1 := new_clade (Some ''A'') (Some (3 / 10)) [3] None,
      0 := new_clade (Some ''A'') None [4, 3] None)"

text \<open>
  The first example after annotation with the table, a rank for the tree of unsampled
  nodes, and one node that carries the two labels of two samples.
\<close>

definition ex_emptied_annotated :: heap where
  "ex_emptied_annotated = ex_emptied
     (1 := new_clade (Some ''A|B'') (Some (1 / 10)) []
             (Some [''A|acc1|r|c|2021-01-01'', ''B|acc2|r|c|2021-02-01'']),
      0 := new_clade (Some []) None [1] (Some []))"

definition ex_unsampled_rank :: "ref \<Rightarrow> nat" where
  "ex_unsampled_rank = (\<lambda>_. 0)(0 := 2, 1 := 1, 2 := 1)"

definition ex_two_labels :: heap where
  "ex_two_labels = no_objects
     (0 := new_clade (Some ''B|A'') None []
             (Some [''B|acc2|r|c|2021-02-01'', ''A|acc1|r|c|2021-01-01'']))"

text \<open>
  \<^verbatim>\<open>((A:0,B:0):0,C:1);\<close> Every branch below the inner node, and its own, has length zero.
\<close>

definition ex_zero_branch :: heap where
  "ex_zero_branch = no_objects
     (0 := new_clade None None [1, 4] None,
      1 := new_clade None (Some 0) [2, 3] None,
      2 := new_clade (Some ''A'') (Some 0) [] None,
      3 := new_clade (Some ''B'') (Some 0) [] None,
      4 := new_clade (Some ''C'') (Some 1) [] None)"

text \<open>
  An annotated tree in which the root and a tip share their earliest accession, the
  sample of the tip being the earlier one.
\<close>

definition ex_shared_reversed :: heap where
  "ex_shared_reversed = no_objects
     (0 := new_clade (Some ''B'') None [1, 2] (Some [''B|acc1|r|c|2021-01-02'']),
      1 := new_clade (Some ''A'') (Some 1) [] (Some [''A|acc1|r|c|2021-01-01'']),
      2 := new_clade (Some ''C'') (Some 2) [] (Some [''C|acc9|r|c|2021-01-03'']))"

section \<open>Evaluating the traversals\<close>

lemma preorder_traverse_Nil: "preorder_traverse h [] = Some []"
  by (simp add: preorder_traverse.simps)

lemma preorder_traverse_Cons:
  "preorder_traverse h (v # rest) =
     Option.bind (preorder_traverse h (clades (h v) @ rest)) (\<lambda>xs. Some (v # xs))"
  by (subst preorder_traverse.simps) simp

lemma level_traverse_Nil: "level_traverse h [] = Some []"
  by (simp add: level_traverse.simps)

lemma level_traverse_Cons:
  "level_traverse h (v # rest) =
     Option.bind (level_traverse h (rest @ clades (h v))) (\<lambda>xs. Some (v # xs))"
  by (subst level_traverse.simps) simp

lemmas traverse_eval =
  preorder_traverse_Nil preorder_traverse_Cons level_traverse_Nil level_traverse_Cons

lemmas collapse_eval =
  traverse_eval collapse_polytomies_def prune_tips_def remove_internal_branches_def
  get_parents_def get_terminals_def
  get_nonterminals_def is_terminal_def prune_tip_def splice_node_def skip_node_def
  join_bar_def truthy_def new_clade_def no_objects_def

lemmas annotate_eval =
  collapse_eval annotate_tree_def validate_def set_diff_def label_tip_def label_node_def
  extend_labels_def

lemmas serialize_eval =
  traverse_eval serialize_tree_def serialize_loop_def serialize_node_def node_variant_def
  get_parents_def round2_def str.simps digit_def new_clade_def no_objects_def

section \<open>Loops that may raise\<close>

lemma for_each_invariant:
  assumes "for_each f s xs = Inr s'" and "I s xs"
    and "\<And>s x xs s1. I s (x # xs) \<Longrightarrow> f s x = Inr s1 \<Longrightarrow> I s1 xs"
  shows "I s' []"
  using assms(1,2)
proof (induction xs arbitrary: s)
  case Nil
  then show ?case by simp
next
  case (Cons x xs)
  then obtain s1 where s1: "f s x = Inr s1" "for_each f s1 xs = Inr s'"
    by (auto split: sum.splits)
  show ?case using Cons.IH[OF s1(2) assms(3)[OF Cons.prems(2) s1(1)]] .
qed

lemma for_each_total:
  assumes "I s xs"
    and "\<And>s x xs. I s (x # xs) \<Longrightarrow> \<exists>s1. f s x = Inr s1 \<and> I s1 xs"
  shows "\<exists>s'. for_each f s xs = Inr s' \<and> I s' []"
  using assms(1)
proof (induction xs arbitrary: s)
  case Nil
  then show ?case by simp
next
  case (Cons x xs)
  from assms(2)[OF Cons.prems] obtain s1 where s1: "f s x = Inr s1" "I s1 xs" by blast
  from Cons.IH[OF s1(2)] show ?case using s1(1) by simp
qed

lemma for_each_skip: "\<forall>x\<in>set xs. f s x = Inr s \<Longrightarrow> for_each f s xs = Inr s"
  by (induction xs) auto

section \<open>Trees in the store\<close>

lemma tree_nodesD:
  assumes "tree_nodes h rt S rk"
  shows "finite S" "rt \<in> S"
    "\<And>p. p \<in> S \<Longrightarrow> distinct (clades (h p))"
    "\<And>p c. p \<in> S \<Longrightarrow> c \<in> set (clades (h p)) \<Longrightarrow> c \<in> S \<and> c \<noteq> rt \<and> rk c < rk p"
    "\<And>p q c. p \<in> S \<Longrightarrow> q \<in> S \<Longrightarrow> c \<in> set (clades (h p)) \<Longrightarrow> c \<in> set (clades (h q)) \<Longrightarrow> p = q"
    "\<And>n. n \<in> S \<Longrightarrow> n \<noteq> rt \<Longrightarrow> \<exists>p\<in>S. n \<in> set (clades (h p))"
  using assms unfolding tree_nodes_def by blast+

lemma reach_in_S:
  assumes T: "tree_nodes h rt S rk" and v: "v \<in> S" and x: "x \<in> reach h v"
  shows "x \<in> S \<and> (x = v \<or> rk x < rk v)"
  using x
proof (induction rule: reach.induct)
  case reach_self
  then show ?case using v by simp
next
  case (reach_child x c)
  then show ?case using tree_nodesD(4)[OF T, of x c] by auto
qed

lemma reach_step: "reach h v = insert v (\<Union>c\<in>set (clades (h v)). reach h c)"
proof (intro set_eqI iffI)
  fix x assume "x \<in> reach h v"
  then show "x \<in> insert v (\<Union>c\<in>set (clades (h v)). reach h c)"
  proof (induction rule: reach.induct)
    case reach_self
    then show ?case by simp
  next
    case (reach_child x c)
    then show ?case by (auto intro: reach.intros)
  qed
next
  fix x assume "x \<in> insert v (\<Union>c\<in>set (clades (h v)). reach h c)"
  then consider "x = v" | c where "c \<in> set (clades (h v))" "x \<in> reach h c" by auto
  then show "x \<in> reach h v"
  proof cases
    case 1
    then show ?thesis by (simp add: reach.intros)
  next
    case 2
    from 2(2) show ?thesis
      by (induction rule: reach.induct) (auto intro: reach.intros 2(1))
  qed
qed

lemma reach_siblings_disjoint:
  assumes T: "tree_nodes h rt S rk" and p: "p \<in> S"
    and c1: "c1 \<in> set (clades (h p))" and c2: "c2 \<in> set (clades (h p))" and ne: "c1 \<noteq> c2"
  shows "reach h c1 \<inter> reach h c2 = {}"
proof -
  have c1S: "c1 \<in> S" and c2S: "c2 \<in> S" and r1: "rk c1 < rk p" and r2: "rk c2 < rk p"
    using tree_nodesD(4)[OF T p] c1 c2 by auto
  have "x \<in> reach h c1 \<Longrightarrow> x \<in> reach h c2 \<Longrightarrow> False" for x
  proof (induction rule: reach.induct)
    case reach_self
    from \<open>c1 \<in> reach h c2\<close> show ?case
    proof (cases rule: reach.cases)
      case reach_self
      then show ?thesis using ne by simp
    next
      case (reach_child y)
      then have "y \<in> S" using reach_in_S[OF T c2S] by blast
      then have "y = p" using tree_nodesD(5)[OF T _ p reach_child(2) c1] by blast
      then show ?thesis using reach_in_S[OF T c2S reach_child(1)] r2 by auto
    qed
  next
    case (reach_child y x)
    have yS: "y \<in> S" using reach_in_S[OF T c1S reach_child(1)] by blast
    from \<open>x \<in> reach h c2\<close> show ?case
    proof (cases rule: reach.cases)
      case reach_self
      then have "y = p" using tree_nodesD(5)[OF T yS p] reach_child(2) c2 by blast
      then show ?thesis using reach_in_S[OF T c1S reach_child(1)] r1 by auto
    next
      case (reach_child y')
      then have "y' \<in> S" using reach_in_S[OF T c2S] by blast
      then have "y' = y" using tree_nodesD(5)[OF T _ yS reach_child(2)] \<open>x \<in> set (clades (h y))\<close> by blast
      then show ?thesis using reach_child(1) \<open>y \<in> reach h c2 \<Longrightarrow> False\<close> by blast
    qed
  qed
  then show ?thesis by blast
qed

subsection \<open>The preorder traversal of a tree returns its nodes, each once\<close>

lemma map_option_append_comp:
  "map_option ((@) xs) (map_option ((@) ys) z) = map_option ((@) (xs @ ys)) z"
  by (cases z) simp_all

lemma preorder_children:
  assumes T: "tree_nodes h rt S rk" and p: "p \<in> S"
    and IH: "\<And>c. c \<in> set (clades (h p)) \<Longrightarrow>
       \<exists>xs. (\<forall>rest. preorder_traverse h (c # rest) = map_option ((@) xs) (preorder_traverse h rest))
            \<and> set xs = reach h c \<and> distinct xs"
    and sub: "set cs \<subseteq> set (clades (h p))" and d: "distinct cs"
  shows "\<exists>ys. (\<forall>rest. preorder_traverse h (cs @ rest) = map_option ((@) ys) (preorder_traverse h rest))
            \<and> set ys = (\<Union>c\<in>set cs. reach h c) \<and> distinct ys"
  using sub d
proof (induction cs)
  case Nil
  show ?case by (rule exI[of _ "[]"]) (simp add: option.map_ident)
next
  case (Cons c cs)
  then obtain ys where ys: "\<forall>rest. preorder_traverse h (cs @ rest) = map_option ((@) ys) (preorder_traverse h rest)"
    "set ys = (\<Union>c\<in>set cs. reach h c)" "distinct ys" by auto
  from Cons.prems IH[of c] obtain xs where xs: "\<forall>rest. preorder_traverse h (c # rest) = map_option ((@) xs) (preorder_traverse h rest)"
    "set xs = reach h c" "distinct xs" by auto
  have disj: "set xs \<inter> set ys = {}"
  proof -
    have "reach h c \<inter> reach h c' = {}" if "c' \<in> set cs" for c'
      using reach_siblings_disjoint[OF T p, of c c'] that Cons.prems by auto
    then show ?thesis using xs(2) ys(2) by auto
  qed
  show ?case
  proof (rule exI[of _ "xs @ ys"], intro conjI allI)
    fix rest
    show "preorder_traverse h ((c # cs) @ rest) = map_option ((@) (xs @ ys)) (preorder_traverse h rest)"
      using xs(1) ys(1) by (simp add: map_option_append_comp)
  next
    show "set (xs @ ys) = (\<Union>c\<in>set (c # cs). reach h c)" using xs(2) ys(2) by auto
  next
    show "distinct (xs @ ys)" using xs(3) ys(3) disj by simp
  qed
qed

lemma preorder_subtree:
  assumes T: "tree_nodes h rt S rk"
  shows "v \<in> S \<Longrightarrow>
     \<exists>xs. (\<forall>rest. preorder_traverse h (v # rest) = map_option ((@) xs) (preorder_traverse h rest))
          \<and> set xs = reach h v \<and> distinct xs"
proof (induction "rk v" arbitrary: v rule: less_induct)
  case less
  have kids: "\<And>c. c \<in> set (clades (h v)) \<Longrightarrow> c \<in> S \<and> rk c < rk v"
    using tree_nodesD(4)[OF T less.prems] by blast
  have "\<exists>ys. (\<forall>rest. preorder_traverse h (clades (h v) @ rest) = map_option ((@) ys) (preorder_traverse h rest))
            \<and> set ys = (\<Union>c\<in>set (clades (h v)). reach h c) \<and> distinct ys"
    by (rule preorder_children[OF T less.prems])
       (use kids less.hyps tree_nodesD(3)[OF T less.prems] in auto)
  then obtain ys where ys: "\<forall>rest. preorder_traverse h (clades (h v) @ rest) = map_option ((@) ys) (preorder_traverse h rest)"
    "set ys = (\<Union>c\<in>set (clades (h v)). reach h c)" "distinct ys" by blast
  have vnot: "v \<notin> set ys"
  proof
    assume "v \<in> set ys"
    then obtain c where c: "c \<in> set (clades (h v))" "v \<in> reach h c" using ys(2) by auto
    then show False using reach_in_S[OF T _ c(2)] kids[OF c(1)] by auto
  qed
  show ?case
  proof (rule exI[of _ "v # ys"], intro conjI allI)
    fix rest
    show "preorder_traverse h (v # rest) = map_option ((@) (v # ys)) (preorder_traverse h rest)"
      using ys(1) by (cases "preorder_traverse h rest") (simp_all add: preorder_traverse_Cons)
  next
    show "set (v # ys) = reach h v" using ys(2) reach_step[of h v] by simp
  next
    show "distinct (v # ys)" using ys(3) vnot by simp
  qed
qed

lemma all_reachable:
  assumes T: "tree_nodes h rt S rk"
  shows "n \<in> S \<Longrightarrow> n \<in> reach h rt"
proof (induction "card {m \<in> S. rk n < rk m}" arbitrary: n rule: less_induct)
  case less
  show ?case
  proof (cases "n = rt")
    case True
    then show ?thesis by (simp add: reach.intros)
  next
    case False
    then obtain p where p: "p \<in> S" "n \<in> set (clades (h p))"
      using tree_nodesD(6)[OF T less.prems] by blast
    then have rk: "rk n < rk p" using tree_nodesD(4)[OF T p(1)] by blast
    have "{m \<in> S. rk p < rk m} \<subset> {m \<in> S. rk n < rk m}"
      using rk p(1) by auto
    then have "card {m \<in> S. rk p < rk m} < card {m \<in> S. rk n < rk m}"
      using tree_nodesD(1)[OF T] by (intro psubset_card_mono) auto
    then have "p \<in> reach h rt" using less.hyps p(1) by blast
    then show ?thesis using p(2) by (rule reach.reach_child)
  qed
qed

lemma reach_root: "tree_nodes h rt S rk \<Longrightarrow> reach h rt = S"
  using all_reachable reach_in_S tree_nodesD(2) by blast

lemma preorder_tree:
  assumes T: "tree_nodes h rt S rk"
  shows "\<exists>xs. preorder_traverse h [rt] = Some xs \<and> set xs = S \<and> distinct xs"
proof -
  from preorder_subtree[OF T tree_nodesD(2)[OF T]] obtain xs where
    xs: "\<forall>rest. preorder_traverse h (rt # rest) = map_option ((@) xs) (preorder_traverse h rest)"
    "set xs = reach h rt" "distinct xs" by blast
  from xs(1) have "preorder_traverse h [rt] = Some xs" by (simp add: preorder_traverse_Nil)
  then show ?thesis using xs reach_root[OF T] by simp
qed

lemma get_terminals_tree:
  assumes T: "tree_nodes h rt S rk"
  shows "\<exists>tips. get_terminals h rt = Some tips \<and> set tips = {t \<in> S. clades (h t) = []} \<and> distinct tips"
  using preorder_tree[OF T] by (auto simp: get_terminals_def is_terminal_def)

lemma get_nonterminals_tree:
  assumes T: "tree_nodes h rt S rk"
  shows "\<exists>ns. get_nonterminals h rt = Some ns \<and> set ns = {t \<in> S. clades (h t) \<noteq> []} \<and> distinct ns"
  using preorder_tree[OF T] by (auto simp: get_nonterminals_def is_terminal_def)

subsection \<open>The level-order traversal and the parent index\<close>

lemma level_traverse_append:
  "level_traverse h (Q @ X) =
     Option.bind (level_traverse h (X @ concat (map (\<lambda>v. clades (h v)) Q))) (\<lambda>r. Some (Q @ r))"
proof (induction Q arbitrary: X)
  case Nil
  then show ?case by simp
next
  case (Cons v Q)
  show ?case
    using Cons.IH[of "X @ clades (h v)"]
    by (cases "level_traverse h (X @ clades (h v) @ concat (map (\<lambda>v. clades (h v)) Q))")
       (simp_all add: level_traverse_Cons)
qed

lemma distinct_concat_map:
  "distinct Q \<Longrightarrow> \<forall>a\<in>set Q. distinct (f a) \<Longrightarrow>
   \<forall>a\<in>set Q. \<forall>b\<in>set Q. a \<noteq> b \<longrightarrow> set (f a) \<inter> set (f b) = {} \<Longrightarrow>
   distinct (concat (map f Q))"
  by (induction Q) auto

lemma reach_child_subset: "c \<in> set (clades (h a)) \<Longrightarrow> reach h c \<subseteq> reach h a"
  using reach_step[of h a] by blast

lemma level_traverse_distinct:
  assumes T: "tree_nodes h rt S rk"
  shows "set Q \<subseteq> S \<Longrightarrow> \<forall>v\<in>set Q. rk v < k \<Longrightarrow> distinct Q \<Longrightarrow>
     \<forall>a\<in>set Q. \<forall>b\<in>set Q. a \<noteq> b \<longrightarrow> reach h a \<inter> reach h b = {} \<Longrightarrow>
     \<exists>ys. level_traverse h Q = Some ys \<and> set ys = (\<Union>v\<in>set Q. reach h v) \<and> distinct ys"
proof (induction k arbitrary: Q)
  case 0
  then have "Q = []" by (cases Q) auto
  then show ?case by (simp add: level_traverse_Nil)
next
  case (Suc k)
  let ?f = "\<lambda>v. clades (h v)"
  let ?N = "concat (map ?f Q)"
  have kid: "c \<in> S \<and> rk c < k" if "v \<in> set Q" "c \<in> set (clades (h v))" for v c
  proof -
    have "v \<in> S" "rk v < Suc k" using that(1) Suc.prems by auto
    then show ?thesis using tree_nodesD(4)[OF T \<open>v \<in> S\<close> that(2)] by simp
  qed
  have sub: "set ?N \<subseteq> S" and rk: "\<forall>v\<in>set ?N. rk v < k" using kid by auto
  have dN: "distinct ?N"
  proof (rule distinct_concat_map)
    show "distinct Q" by (rule Suc.prems(3))
    show "\<forall>a\<in>set Q. distinct (clades (h a))" using tree_nodesD(3)[OF T] Suc.prems(1) by blast
    show "\<forall>a\<in>set Q. \<forall>b\<in>set Q. a \<noteq> b \<longrightarrow> set (clades (h a)) \<inter> set (clades (h b)) = {}"
      using tree_nodesD(5)[OF T] Suc.prems(1) by blast
  qed
  have disj: "\<forall>a\<in>set ?N. \<forall>b\<in>set ?N. a \<noteq> b \<longrightarrow> reach h a \<inter> reach h b = {}"
  proof (intro ballI impI)
    fix c1 c2 assume c: "c1 \<in> set ?N" "c2 \<in> set ?N" "c1 \<noteq> c2"
    then obtain a b where ab: "a \<in> set Q" "c1 \<in> set (clades (h a))" "b \<in> set Q" "c2 \<in> set (clades (h b))"
      by auto
    show "reach h c1 \<inter> reach h c2 = {}"
    proof (cases "a = b")
      case True
      then show ?thesis
        using reach_siblings_disjoint[OF T, of a c1 c2] ab c(3) Suc.prems(1) by auto
    next
      case False
      then have "reach h a \<inter> reach h b = {}" using Suc.prems(4) ab(1,3) by blast
      then show ?thesis
        using reach_child_subset[of c1 h a] reach_child_subset[of c2 h b] ab(2,4) by blast
    qed
  qed
  from Suc.IH[OF sub rk dN disj] obtain ys where
    ys: "level_traverse h ?N = Some ys" "set ys = (\<Union>v\<in>set ?N. reach h v)" "distinct ys" by blast
  have run: "level_traverse h Q = Some (Q @ ys)"
    using level_traverse_append[of h Q "[]"] ys(1) by simp
  have sets: "set (Q @ ys) = (\<Union>v\<in>set Q. reach h v)"
  proof -
    have "(\<Union>v\<in>set Q. reach h v) = (\<Union>v\<in>set Q. insert v (\<Union>c\<in>set (clades (h v)). reach h c))"
      by (subst reach_step) simp
    also have "\<dots> = set Q \<union> (\<Union>v\<in>set Q. \<Union>c\<in>set (clades (h v)). reach h c)"
      by blast
    finally show ?thesis using ys(2) by simp
  qed
  have apart: "set Q \<inter> set ys = {}"
  proof (rule ccontr)
    assume "set Q \<inter> set ys \<noteq> {}"
    then obtain v where v: "v \<in> set Q" "v \<in> set ys" by blast
    then obtain a c where ac: "a \<in> set Q" "c \<in> set (clades (h a))" "v \<in> reach h c"
      using ys(2) by auto
    have va: "v \<in> reach h a" using reach_child_subset[of c h a] ac(2,3) by blast
    have aS: "a \<in> S" using ac(1) Suc.prems(1) by blast
    have cS: "c \<in> S" "rk c < rk a" using tree_nodesD(4)[OF T aS ac(2)] by auto
    show False
    proof (cases "v = a")
      case True
      then show ?thesis using reach_in_S[OF T cS(1) ac(3)] cS(2) by auto
    next
      case False
      then have "reach h v \<inter> reach h a = {}" using Suc.prems(4) v(1) ac(1) by blast
      then show ?thesis using va reach.reach_self by blast
    qed
  qed
  have "distinct (Q @ ys)" using Suc.prems(3) ys(3) apart by simp
  then show ?case using run sets by blast
qed

lemma level_tree_distinct:
  assumes T: "tree_nodes h rt S rk"
  shows "\<exists>ys. level_traverse h [rt] = Some ys \<and> set ys = S \<and> distinct ys"
  using level_traverse_distinct[OF T, of "[rt]" "Suc (rk rt)"] tree_nodesD(2)[OF T] reach_root[OF T]
  by auto

lemma level_tree:
  assumes T: "tree_nodes h rt S rk"
  shows "\<exists>ys. level_traverse h [rt] = Some ys \<and> set ys = S"
  using level_tree_distinct[OF T] by blast

lemma fold_parent_update:
  "fold (\<lambda>child m. m(child \<mapsto> p)) cs ps c = (if c \<in> set cs then Some p else ps c)"
  by (induction cs arbitrary: ps) auto

lemma get_parents_loop_unique:
  "\<forall>q\<in>set xs. c \<in> set (clades (h q)) \<longrightarrow> q = p \<Longrightarrow>
   (p \<in> set xs \<and> c \<in> set (clades (h p))) \<or> ps c = Some p \<Longrightarrow>
   get_parents_loop h ps xs c = Some p"
proof (induction xs arbitrary: ps)
  case Nil
  then show ?case by simp
next
  case (Cons x xs)
  let ?ps = "fold (\<lambda>child m. m(child \<mapsto> x)) (clades (h x)) ps"
  have 1: "\<forall>q\<in>set xs. c \<in> set (clades (h q)) \<longrightarrow> q = p" using Cons.prems(1) by simp
  have 2: "(p \<in> set xs \<and> c \<in> set (clades (h p))) \<or> ?ps c = Some p"
  proof (cases "c \<in> set (clades (h x))")
    case True
    then have "x = p" using Cons.prems(1) by simp
    then show ?thesis using True by (simp add: fold_parent_update)
  next
    case False
    then have "?ps c = ps c" by (simp add: fold_parent_update)
    then show ?thesis using Cons.prems(2) False by auto
  qed
  show ?case using Cons.IH[of "?ps", OF 1 2] by simp
qed

lemma get_parents_loop_none:
  "\<forall>q\<in>set xs. c \<notin> set (clades (h q)) \<Longrightarrow> get_parents_loop h ps xs c = ps c"
  by (induction xs arbitrary: ps) (auto simp: fold_parent_update)

lemma get_parents_tree:
  assumes T: "tree_nodes h rt S rk"
  shows "\<exists>ps. get_parents h rt = Some ps \<and> parents_ok h rt S ps"
proof -
  from level_tree[OF T] obtain ys where ys: "level_traverse h [rt] = Some ys" "set ys = S" by blast
  let ?ps = "get_parents_loop h Map.empty ys"
  have "?ps c = Some p" if "p \<in> S" "c \<in> set (clades (h p))" for p c
  proof (rule get_parents_loop_unique)
    show "\<forall>q\<in>set ys. c \<in> set (clades (h q)) \<longrightarrow> q = p"
      using ys(2) tree_nodesD(5)[OF T _ that(1) _ that(2)] by blast
    show "p \<in> set ys \<and> c \<in> set (clades (h p)) \<or> Map.empty c = Some p"
      using that ys(2) by simp
  qed
  moreover have "?ps rt = None"
  proof -
    have "\<forall>q\<in>set ys. rt \<notin> set (clades (h q))"
      using tree_nodesD(4)[OF T] ys(2) by blast
    then show ?thesis by (simp add: get_parents_loop_none)
  qed
  ultimately show ?thesis using ys(1) by (simp add: get_parents_def parents_ok_def)
qed

lemma get_parents_ok:
  assumes T: "tree_nodes h rt S rk" and ps: "get_parents h rt = Some ps"
  shows "parents_ok h rt S ps"
  using get_parents_tree[OF T] ps by auto

subsection \<open>Removing a tip and splicing a node keep the tree\<close>

lemma tree_nodes_remove_leaf:
  assumes T: "tree_nodes h rt S rk" and p: "p \<in> S" and tip: "tip \<in> set (clades (h p))"
    and leaf: "clades (h tip) = []"
    and h': "h' = h(p := (h p)\<lparr>clades := remove1 tip (clades (h p)), name := X\<rparr>)"
  shows "tree_nodes h' rt (S - {tip}) rk"
proof -
  have ne: "p \<noteq> tip" using tip leaf by auto
  have tipS: "tip \<in> S" "tip \<noteq> rt" using tree_nodesD(4)[OF T p tip] by auto
  have dp: "distinct (clades (h p))" using tree_nodesD(3)[OF T p] .
  have cl: "set (clades (h' q)) = (if q = p then set (clades (h p)) - {tip} else set (clades (h q)))" for q
    using dp by (simp add: h')
  have cl_sub: "set (clades (h' q)) \<subseteq> set (clades (h q))" for q
    using cl[of q] by auto
  have other: "tip \<notin> set (clades (h q))" if "q \<in> S" "q \<noteq> p" for q
    using tree_nodesD(5)[OF T that(1) p _ tip] that(2) by blast
  have no_tip: "tip \<notin> set (clades (h' q))" if "q \<in> S" for q
    using cl[of q] other[OF that] by auto
  show ?thesis
    unfolding tree_nodes_def
  proof (intro conjI ballI allI impI)
    show "finite (S - {tip})" using tree_nodesD(1)[OF T] by simp
    show "rt \<in> S - {tip}" using tree_nodesD(2)[OF T] tipS by simp
  next
    fix q assume "q \<in> S - {tip}"
    then show "distinct (clades (h' q))" using tree_nodesD(3)[OF T, of q] dp by (auto simp: h')
  next
    fix q c assume q: "q \<in> S - {tip}" and c: "c \<in> set (clades (h' q))"
    then have "c \<in> set (clades (h q))" using cl_sub by blast
    then have "c \<in> S \<and> c \<noteq> rt \<and> rk c < rk q" using tree_nodesD(4)[OF T, of q c] q by simp
    moreover have "c \<noteq> tip" using no_tip[of q] q c by auto
    ultimately show "c \<in> S - {tip}" "c \<noteq> rt" "rk c < rk q" by auto
  next
    fix q q' c assume "q \<in> S - {tip}" "q' \<in> S - {tip}"
      "c \<in> set (clades (h' q)) \<and> c \<in> set (clades (h' q'))"
    then show "q = q'" using tree_nodesD(5)[OF T, of q q' c] cl_sub by blast
  next
    fix n assume n: "n \<in> S - {tip}" "n \<noteq> rt"
    then obtain q where q: "q \<in> S" "n \<in> set (clades (h q))" using tree_nodesD(6)[OF T, of n] by auto
    then have "q \<noteq> tip" using leaf by auto
    moreover have "n \<in> set (clades (h' q))" using q n cl[of q] by auto
    ultimately show "\<exists>q\<in>S - {tip}. n \<in> set (clades (h' q))" using q(1) by blast
  qed
qed

lemma tree_nodes_splice:
  assumes T: "tree_nodes h rt S rk" and p: "p \<in> S" and n: "n \<in> set (clades (h p))"
    and h': "h' = h(p := (h p)\<lparr>clades := remove1 n (clades (h p)) @ clades (h n), name := X\<rparr>)"
  shows "tree_nodes h' rt (S - {n}) rk"
proof -
  have nS: "n \<in> S" "n \<noteq> rt" "rk n < rk p" using tree_nodesD(4)[OF T p n] by auto
  then have ne: "p \<noteq> n" by auto
  have dp: "distinct (clades (h p))" using tree_nodesD(3)[OF T p] .
  have dn: "distinct (clades (h n))" using tree_nodesD(3)[OF T nS(1)] .
  have kids: "c \<in> S \<and> c \<noteq> rt \<and> rk c < rk n \<and> c \<noteq> n" if "c \<in> set (clades (h n))" for c
    using tree_nodesD(4)[OF T nS(1) that] by auto
  have disj: "set (clades (h p)) \<inter> set (clades (h n)) = {}"
    using tree_nodesD(5)[OF T p nS(1)] ne by blast
  have clp: "set (clades (h' p)) = (set (clades (h p)) - {n}) \<union> set (clades (h n))"
    using dp by (simp add: h')
  have clq: "clades (h' q) = clades (h q)" if "q \<noteq> p" for q using that by (simp add: h')
  have other: "n \<notin> set (clades (h q))" if "q \<in> S" "q \<noteq> p" for q
    using tree_nodesD(5)[OF T that(1) p _ n] that(2) by blast
  show ?thesis
    unfolding tree_nodes_def
  proof (intro conjI ballI allI impI)
    show "finite (S - {n})" using tree_nodesD(1)[OF T] by simp
    show "rt \<in> S - {n}" using tree_nodesD(2)[OF T] nS by simp
  next
    fix q assume q: "q \<in> S - {n}"
    show "distinct (clades (h' q))"
    proof (cases "q = p")
      case True
      then show ?thesis using dp dn disj by (auto simp: h')
    next
      case False
      then show ?thesis using tree_nodesD(3)[OF T, of q] q clq by simp
    qed
  next
    fix q c assume q: "q \<in> S - {n}" and c: "c \<in> set (clades (h' q))"
    have "c \<in> S \<and> c \<noteq> rt \<and> rk c < rk q \<and> c \<noteq> n"
    proof (cases "q = p")
      case True
      then consider "c \<in> set (clades (h p))" "c \<noteq> n" | "c \<in> set (clades (h n))" using c clp by auto
      then show ?thesis
      proof cases
        case 1
        then show ?thesis using tree_nodesD(4)[OF T p 1(1)] True by simp
      next
        case 2
        then show ?thesis using kids[OF 2] nS(3) True by auto
      qed
    next
      case False
      then have "c \<in> set (clades (h q))" using c clq by simp
      then show ?thesis using tree_nodesD(4)[OF T, of q c] q other[of q] False by auto
    qed
    then show "c \<in> S - {n}" "c \<noteq> rt" "rk c < rk q" by auto
  next
    fix q q' c assume q: "q \<in> S - {n}" and q': "q' \<in> S - {n}"
      and c: "c \<in> set (clades (h' q)) \<and> c \<in> set (clades (h' q'))"
    have own: "c \<in> set (clades (h q)) \<or> (q = p \<and> c \<in> set (clades (h n)))"
      if "c \<in> set (clades (h' q))" for q
      using that clp clq[of q] by (cases "q = p") auto
    have up: "False" if "q \<in> S - {n}" "c \<in> set (clades (h q))" "c \<in> set (clades (h n))" for q
      using tree_nodesD(5)[OF T _ nS(1) that(2) that(3)] that(1) by auto
    show "q = q'"
      using own[of q] own[of q'] c q q' up tree_nodesD(5)[OF T, of q q' c] by blast
  next
    fix m assume m: "m \<in> S - {n}" "m \<noteq> rt"
    then obtain q where q: "q \<in> S" "m \<in> set (clades (h q))" using tree_nodesD(6)[OF T, of m] by auto
    show "\<exists>q\<in>S - {n}. m \<in> set (clades (h' q))"
    proof (cases "q = n")
      case True
      then have "m \<in> set (clades (h' p))" using q clp by simp
      then show ?thesis using p ne by blast
    next
      case False
      then have "m \<in> set (clades (h' q))" using q m clp clq[of q] by (cases "q = p") auto
      then show ?thesis using q False by blast
    qed
  qed
qed

section \<open>The first loop\<close>

lemma prune_tip_cases:
  assumes "prune_tip minlen ps h tip = Inr h'"
  shows "(\<exists>b. branch_length (h tip) = Some b \<and> minlen < b \<and> h' = h) \<or>
         (\<exists>b p X. branch_length (h tip) = Some b \<and> \<not> minlen < b \<and> ps tip = Some p \<and>
            tip \<in> set (clades (h p)) \<and>
            h' = h(p := (h p)\<lparr>clades := remove1 tip (clades (h p)), name := X\<rparr>))"
  using assms
  by (auto simp: prune_tip_def Let_def split: option.splits if_splits)

lemma prune_tip_keep:
  "branch_length (h t) = Some b \<Longrightarrow> minlen < b \<Longrightarrow> prune_tip minlen ps h t = Inr h"
  by (simp add: prune_tip_def)

lemma prune_tip_prune:
  assumes "branch_length (h t) = Some b" "\<not> minlen < b" "ps t = Some p"
    "t \<in> set (clades (h p))" "p \<noteq> t" "name (h t) = Some tn"
  shows "prune_tip minlen ps h t =
     Inr (h(p := (h p)\<lparr>clades := remove1 t (clades (h p)),
                          name := (case name (h p) of None \<Rightarrow> Some tn
                                   | Some pn \<Rightarrow> Some (pn @ ''|'' @ tn))\<rparr>))"
  using assms by (simp add: prune_tip_def join_bar_def Let_def split: option.splits)

lemma prune_tip_branch_length:
  "prune_tip minlen ps h t = Inr h' \<Longrightarrow> branch_length (h' n) = branch_length (h n)"
  using prune_tip_cases[of minlen ps h t h'] by auto

lemma prune_tips_defined:
  "for_each (prune_tip minlen ps) h tips = Inr h1 \<Longrightarrow> \<forall>t\<in>set tips. branch_length (h t) \<noteq> None"
proof (induction tips arbitrary: h)
  case Nil
  then show ?case by simp
next
  case (Cons t tips)
  then obtain h' where h': "prune_tip minlen ps h t = Inr h'" "for_each (prune_tip minlen ps) h' tips = Inr h1"
    by (auto split: sum.splits)
  have "branch_length (h t) \<noteq> None" using prune_tip_cases[of minlen ps h t h'] h'(1) by auto
  moreover have "\<forall>x\<in>set tips. branch_length (h x) \<noteq> None"
    using Cons.IH[OF h'(2)] prune_tip_branch_length[of minlen ps h t h'] h'(1) by simp
  ultimately show ?case by simp
qed

lemma pass1_step:
  assumes I: "pass1_inv rt minlen rk ps h0 S0 tips0 h (tip # rest)"
    and tips0: "\<forall>t\<in>set tips0. clades (h0 t) = []" "set (tip # rest) \<subseteq> set tips0"
    and step: "prune_tip minlen ps h tip = Inr h'"
  shows "pass1_inv rt minlen rk ps h0 S0 tips0 h' rest"
proof -
  from I obtain S where S: "tree_nodes h rt S rk" "parents_ok h rt S ps" "set (tip # rest) \<subseteq> S"
    "distinct (tip # rest)" "S \<subseteq> S0" "\<forall>n. branch_length (h n) = branch_length (h0 n)"
    "\<forall>n. clades (h0 n) = [] \<longrightarrow> h n = h0 n"
    "\<forall>n\<in>S0. clades (h n) = filter (\<lambda>c. c \<in> S) (clades (h0 n))"
    "S0 - S = {t \<in> set tips0 - set (tip # rest). \<not> long_branch minlen h0 t}"
    unfolding pass1_inv_def by blast
  have tipS: "tip \<in> S" "tip \<notin> set rest" "tip \<in> set tips0" using S(3,4) tips0(2) by auto
  have leaf0: "clades (h0 tip) = []" using tips0(1) tipS(3) by blast
  then have leaf: "clades (h tip) = []" using S(7) by simp
  from prune_tip_cases[OF step] show ?thesis
  proof (elim disjE exE conjE)
    fix b assume b: "branch_length (h tip) = Some b" "minlen < b" "h' = h"
    then have "long_branch minlen h0 tip" using S(6) by (simp add: long_branch_def)
    then have "S0 - S = {t \<in> set tips0 - set rest. \<not> long_branch minlen h0 t}"
      using S(9) by auto
    then show ?thesis unfolding pass1_inv_def using S b(3) by (intro exI[of _ S]) auto
  next
    fix b p X assume b: "branch_length (h tip) = Some b" "\<not> minlen < b" "ps tip = Some p"
      "tip \<in> set (clades (h p))"
      "h' = h(p := (h p)\<lparr>clades := remove1 tip (clades (h p)), name := X\<rparr>)"
    have short: "\<not> long_branch minlen h0 tip" using b(1,2) S(6) by (simp add: long_branch_def)
    have "tip \<noteq> rt" using S(2) b(3) by (auto simp: parents_ok_def)
    then obtain q where q: "q \<in> S" "tip \<in> set (clades (h q))" using tree_nodesD(6)[OF S(1) tipS(1)] by blast
    then have "ps tip = Some q" using S(2) by (auto simp: parents_ok_def)
    then have pq: "p = q" using b(3) by simp
    then have pS: "p \<in> S" using q by simp
    have pne: "p \<noteq> tip" using b(4) leaf by auto
    have T': "tree_nodes h' rt (S - {tip}) rk"
      by (rule tree_nodes_remove_leaf[OF S(1) pS b(4) leaf b(5)])
    have dp: "distinct (clades (h p))" using tree_nodesD(3)[OF S(1) pS] .
    have clp: "clades (h' p) = remove1 tip (clades (h p))" by (simp add: b(5))
    have clq: "clades (h' n) = clades (h n)" if "n \<noteq> p" for n using that by (simp add: b(5))
    have other: "tip \<notin> set (clades (h n))" if "n \<in> S" "n \<noteq> p" for n
      using tree_nodesD(5)[OF S(1) that(1) pS _ b(4)] that(2) by blast
    have P': "parents_ok h' rt (S - {tip}) ps"
      unfolding parents_ok_def
    proof (intro conjI ballI)
      fix n c assume "n \<in> S - {tip}" "c \<in> set (clades (h' n))"
      then have "n \<in> S" "c \<in> set (clades (h n))" using clp clq[of n] dp by (cases "n = p"; auto)+
      then show "ps c = Some n" using S(2) by (auto simp: parents_ok_def)
    next
      show "ps rt = None" using S(2) by (simp add: parents_ok_def)
    qed
    have bl: "\<forall>n. branch_length (h' n) = branch_length (h0 n)" using S(6) by (simp add: b(5))
    have p0: "clades (h0 p) \<noteq> []"
    proof
      assume "clades (h0 p) = []"
      then have "h p = h0 p" using S(7) by simp
      then show False using b(4) \<open>clades (h0 p) = []\<close> by simp
    qed
    have keep: "\<forall>n. clades (h0 n) = [] \<longrightarrow> h' n = h0 n" using S(7) p0 by (auto simp: b(5))
    have filt: "\<forall>n\<in>S0. clades (h' n) = filter (\<lambda>c. c \<in> S - {tip}) (clades (h0 n))"
    proof
      fix n assume n0: "n \<in> S0"
      have eq: "clades (h n) = filter (\<lambda>c. c \<in> S) (clades (h0 n))" using S(8) n0 by blast
      have "clades (h' n) = filter (\<lambda>c. c \<noteq> tip) (clades (h n))"
      proof (cases "n = p")
        case True
        then show ?thesis using clp dp by (simp add: distinct_remove1_removeAll removeAll_filter_not_eq) metis
      next
        case False
        have "tip \<notin> set (clades (h n))"
        proof (cases "n \<in> S")
          case True
          then show ?thesis using other False by blast
        next
          case False
          have "n \<in> {t \<in> set tips0 - set (tip # rest). \<not> long_branch minlen h0 t}"
            using S(9) n0 False by blast
          then have "clades (h0 n) = []" using tips0(1) by blast
          then show ?thesis using S(7) by simp
        qed
        then have "filter (\<lambda>c. c \<noteq> tip) (clades (h n)) = clades (h n)" by (auto simp: filter_id_conv)
        then show ?thesis using clq[OF False] by simp
      qed
      then show "clades (h' n) = filter (\<lambda>c. c \<in> S - {tip}) (clades (h0 n))"
        using eq by (simp add: conj_commute)
    qed
    have diff: "S0 - (S - {tip}) = {t \<in> set tips0 - set rest. \<not> long_branch minlen h0 t}"
      using S(9) S(5) tipS short by auto
    show ?thesis unfolding pass1_inv_def
      using T' P' S(3,4,5) bl keep filt diff by (intro exI[of _ "S - {tip}"]) auto
  qed
qed

lemma pass1_step_total:
  assumes I: "pass1_inv rt minlen rk ps h0 S0 tips0 h (tip # rest)"
    and tips0: "\<forall>t\<in>set tips0. clades (h0 t) = []" "set (tip # rest) \<subseteq> set tips0"
    and bl: "\<forall>t\<in>set tips0. branch_length (h0 t) \<noteq> None"
    and nm: "\<forall>t\<in>set tips0. name (h0 t) \<noteq> None"
    and rt: "rt \<notin> set tips0"
  shows "\<exists>h'. prune_tip minlen ps h tip = Inr h'"
proof -
  from I obtain S where S: "tree_nodes h rt S rk" "parents_ok h rt S ps" "set (tip # rest) \<subseteq> S"
    "\<forall>n. clades (h0 n) = [] \<longrightarrow> h n = h0 n"
    unfolding pass1_inv_def by blast
  have tip0: "tip \<in> set tips0" "tip \<in> S" using tips0(2) S(3) by auto
  then have eq: "h tip = h0 tip" using tips0(1) S(4) by blast
  obtain b where b: "branch_length (h tip) = Some b" using bl tip0(1) eq by auto
  obtain tn where tn: "name (h tip) = Some tn" using nm tip0(1) eq by auto
  show ?thesis
  proof (cases "minlen < b")
    case True
    then show ?thesis using prune_tip_keep[of h tip b minlen ps] b by blast
  next
    case False
    have "tip \<noteq> rt" using rt tip0(1) by auto
    then obtain q where q: "q \<in> S" "tip \<in> set (clades (h q))"
      using tree_nodesD(6)[OF S(1) tip0(2)] by blast
    then have psq: "ps tip = Some q" using S(2) by (auto simp: parents_ok_def)
    have "q \<noteq> tip" using tree_nodesD(4)[OF S(1) q] by auto
    from prune_tip_prune[of h tip b minlen ps q tn] b False psq q(2) this tn show ?thesis by blast
  qed
qed

lemma pass1_loop:
  assumes T: "tree_nodes h rt S rk" and P: "parents_ok h rt S ps"
    and tips: "set tips = {t \<in> S. clades (h t) = []}" "distinct tips"
    and run: "for_each (prune_tip minlen ps) h tips = Inr h1"
  shows "pass1_inv rt minlen rk ps h S tips h1 []"
proof -
  let ?I = "\<lambda>h' rest. pass1_inv rt minlen rk ps h S tips h' rest \<and> set rest \<subseteq> set tips"
  have filt: "\<forall>n\<in>S. clades (h n) = filter (\<lambda>c. c \<in> S) (clades (h n))"
  proof
    fix n assume "n \<in> S"
    then have "\<forall>c\<in>set (clades (h n)). c \<in> S" using tree_nodesD(4)[OF T] by blast
    then show "clades (h n) = filter (\<lambda>c. c \<in> S) (clades (h n))" by (simp add: filter_id_conv)
  qed
  have init: "?I h tips"
    unfolding pass1_inv_def using T P tips filt
    by (intro conjI exI[of _ S]) auto
  have step: "?I s1 xs" if "?I s (x # xs)" "prune_tip minlen ps s x = Inr s1" for s x xs s1
    using pass1_step[of rt minlen rk ps h S tips s x xs s1] that tips(1) by auto
  have "?I h1 []"
    by (rule for_each_invariant[where I = ?I and f = "prune_tip minlen ps", OF run init])
       (rule step)
  then show ?thesis by blast
qed

lemma pass1_loop_total:
  assumes T: "tree_nodes h rt S rk" and P: "parents_ok h rt S ps"
    and tips: "set tips = {t \<in> S. clades (h t) = []}" "distinct tips"
    and bl: "\<forall>t\<in>set tips. branch_length (h t) \<noteq> None"
    and nm: "\<forall>t\<in>set tips. name (h t) \<noteq> None"
    and rt: "rt \<notin> set tips"
  shows "\<exists>h1. for_each (prune_tip minlen ps) h tips = Inr h1"
proof -
  let ?I = "\<lambda>h' rest. pass1_inv rt minlen rk ps h S tips h' rest \<and> set rest \<subseteq> set tips"
  have filt: "\<forall>n\<in>S. clades (h n) = filter (\<lambda>c. c \<in> S) (clades (h n))"
  proof
    fix n assume "n \<in> S"
    then have "\<forall>c\<in>set (clades (h n)). c \<in> S" using tree_nodesD(4)[OF T] by blast
    then show "clades (h n) = filter (\<lambda>c. c \<in> S) (clades (h n))" by (simp add: filter_id_conv)
  qed
  have init: "?I h tips"
    unfolding pass1_inv_def using T P tips filt
    by (intro conjI exI[of _ S]) auto
  have step: "\<exists>s1. prune_tip minlen ps s x = Inr s1 \<and> ?I s1 xs" if "?I s (x # xs)" for s x xs
  proof -
    have t0: "\<forall>t\<in>set tips. clades (h t) = []" using tips(1) by auto
    from pass1_step_total[of rt minlen rk ps h S tips s x xs, OF _ t0 _ bl nm rt] that
    obtain s1 where s1: "prune_tip minlen ps s x = Inr s1" by blast
    from pass1_step[of rt minlen rk ps h S tips s x xs s1, OF _ t0 _ s1] that
    have "pass1_inv rt minlen rk ps h S tips s1 xs" by blast
    then show ?thesis using s1 that by auto
  qed
  have "\<exists>h1. for_each (prune_tip minlen ps) h tips = Inr h1 \<and> ?I h1 []"
    by (rule for_each_total[where I = ?I, OF init]) (rule step)
  then show ?thesis by blast
qed

section \<open>The second loop\<close>

lemma skip_node_cong:
  "branch_length (h n) = branch_length (h' n) \<Longrightarrow> skip_node rt minlen h n = skip_node rt minlen h' n"
  by (simp add: skip_node_def)

lemma skip_node_iff:
  "skip_node rt minlen h v \<longleftrightarrow>
     \<not> (v \<noteq> rt \<and> (\<exists>b. branch_length (h v) = Some b \<and> b \<le> minlen))"
  by (auto simp: skip_node_def split: option.splits)

lemma skip_long: "v \<noteq> rt \<Longrightarrow> skip_node rt minlen h v = long_branch minlen h v"
  by (auto simp: skip_node_def long_branch_def split: option.splits)

lemma splice_node_skip:
  "skip_node rt minlen h n \<Longrightarrow> splice_node rt minlen (h, ps) n = Inr (h, ps)"
  by (simp add: splice_node_def)

lemma splice_node_splice:
  assumes "\<not> skip_node rt minlen h n" "ps n = Some p" "n \<in> set (clades (h p))" "p \<noteq> n"
  shows "splice_node rt minlen (h, ps) n =
     Inr (h(p := (h p)\<lparr>clades := remove1 n (clades (h p)) @ clades (h n),
                          name := (if truthy (name (h n)) then
                                     (case name (h p) of None \<Rightarrow> name (h n)
                                      | Some pn \<Rightarrow> Some (pn @ ''|'' @ the (name (h n))))
                                   else name (h p))\<rparr>),
          fold (\<lambda>child m. m(child \<mapsto> p)) (clades (h n)) ps)"
  using assms
  by (simp add: splice_node_def join_bar_def Let_def split: option.splits)

lemma pass2_step:
  assumes I: "pass2_inv rt minlen rk h1 S1 nodes0 st (n # rest)"
    and nodes0: "set (n # rest) \<subseteq> set nodes0"
  shows "\<exists>st'. splice_node rt minlen st n = Inr st' \<and> pass2_inv rt minlen rk h1 S1 nodes0 st' rest"
proof -
  obtain h ps where st: "st = (h, ps)" by (cases st)
  from I obtain S where S: "tree_nodes h rt S rk" "parents_ok h rt S ps" "set (n # rest) \<subseteq> S"
    "distinct (n # rest)" "S \<subseteq> S1" "\<forall>n. branch_length (h n) = branch_length (h1 n)"
    "\<forall>n. clades (h1 n) = [] \<longrightarrow> h n = h1 n"
    "\<forall>n\<in>S. clades (h n) \<noteq> [] \<longrightarrow> clades (h1 n) \<noteq> []"
    "S1 - S = {m \<in> set nodes0 - set (n # rest). \<not> skip_node rt minlen h1 m}"
    unfolding pass2_inv_def st fst_conv snd_conv by blast
  have nS: "n \<in> S" "n \<notin> set rest" "n \<in> set nodes0" using S(3,4) nodes0 by auto
  have sk: "skip_node rt minlen h n = skip_node rt minlen h1 n"
    by (rule skip_node_cong) (simp add: S(6))
  show ?thesis
  proof (cases "skip_node rt minlen h n")
    case True
    then have r: "splice_node rt minlen st n = Inr (h, ps)" by (simp add: splice_node_def st)
    have "S1 - S = {m \<in> set nodes0 - set rest. \<not> skip_node rt minlen h1 m}"
      using S(9) True sk by auto
    then have "pass2_inv rt minlen rk h1 S1 nodes0 (h, ps) rest"
      unfolding pass2_inv_def fst_conv snd_conv using S(1,2,3,4,5,6,7,8)
      by (intro exI[of _ S] conjI) simp_all
    then show ?thesis using r by blast
  next
    case False
    then have nrt: "n \<noteq> rt" by (auto simp: skip_node_def split: option.splits)
    then obtain p where p: "p \<in> S" "n \<in> set (clades (h p))" using tree_nodesD(6)[OF S(1) nS(1)] by blast
    then have psn: "ps n = Some p" using S(2) by (auto simp: parents_ok_def)
    have pne: "p \<noteq> n" using tree_nodesD(4)[OF S(1) p] by auto
    define X where "X = (if truthy (name (h n)) then
                           (case name (h p) of None \<Rightarrow> name (h n)
                            | Some pn \<Rightarrow> Some (pn @ ''|'' @ the (name (h n))))
                         else name (h p))"
    define h' where h': "h' = h(p := (h p)\<lparr>clades := remove1 n (clades (h p)) @ clades (h n),
                               name := X\<rparr>)"
    define ps' where ps': "ps' = fold (\<lambda>child m. m(child \<mapsto> p)) (clades (h n)) ps"
    have st': "splice_node rt minlen st n = Inr (h', ps')"
      unfolding st h' ps' X_def using False psn p(2) pne by (rule splice_node_splice)
    have T': "tree_nodes h' rt (S - {n}) rk" by (rule tree_nodes_splice[OF S(1) p h'])
    have dp: "distinct (clades (h p))" using tree_nodesD(3)[OF S(1) p(1)] .
    have clp: "set (clades (h' p)) = (set (clades (h p)) - {n}) \<union> set (clades (h n))"
      using dp by (simp add: h')
    have clq: "clades (h' q) = clades (h q)" if "q \<noteq> p" for q using that by (simp add: h')
    have P': "parents_ok h' rt (S - {n}) ps'"
      unfolding parents_ok_def
    proof (intro conjI ballI)
      fix q c assume q: "q \<in> S - {n}" and c: "c \<in> set (clades (h' q))"
      show "ps' c = Some q"
      proof (cases "q = p")
        case True
        then have "c \<in> set (clades (h p)) \<or> c \<in> set (clades (h n))" using c clp by auto
        then show ?thesis using S(2) p(1) True by (auto simp: ps' fold_parent_update parents_ok_def)
      next
        case False
        then have cq: "c \<in> set (clades (h q))" using c clq by simp
        then have "c \<notin> set (clades (h n))" using tree_nodesD(5)[OF S(1) _ nS(1) cq] q by auto
        then show ?thesis using S(2) q cq by (auto simp: ps' fold_parent_update parents_ok_def)
      qed
    next
      have "rt \<notin> set (clades (h n))" using tree_nodesD(4)[OF S(1) nS(1)] by blast
      then show "ps' rt = None" using S(2) by (simp add: ps' fold_parent_update parents_ok_def)
    qed
    have bl: "\<forall>m. branch_length (h' m) = branch_length (h1 m)" using S(6) by (simp add: h')
    have p1: "clades (h1 p) \<noteq> []" using S(8) p by auto
    have keep: "\<forall>m. clades (h1 m) = [] \<longrightarrow> h' m = h1 m" using S(7) p1 by (auto simp: h')
    have nonterm: "\<forall>m\<in>S - {n}. clades (h' m) \<noteq> [] \<longrightarrow> clades (h1 m) \<noteq> []"
    proof (intro ballI impI)
      fix m assume m: "m \<in> S - {n}" "clades (h' m) \<noteq> []"
      show "clades (h1 m) \<noteq> []"
      proof (cases "m = p")
        case True
        then show ?thesis using p1 by simp
      next
        case False
        then show ?thesis using S(8) m clq[OF False] by auto
      qed
    qed
    have diff: "S1 - (S - {n}) = {m \<in> set nodes0 - set rest. \<not> skip_node rt minlen h1 m}"
      using S(9) S(5) nS False sk by auto
    have sub: "set rest \<subseteq> S - {n}" "distinct rest" "S - {n} \<subseteq> S1"
      using S(3,4,5) by auto
    have "pass2_inv rt minlen rk h1 S1 nodes0 (h', ps') rest"
      unfolding pass2_inv_def fst_conv snd_conv
      using T' P' sub bl keep nonterm diff by (intro exI[of _ "S - {n}"] conjI)
    then show ?thesis using st' by blast
  qed
qed

lemma pass2_loop:
  assumes T: "tree_nodes h1 rt S1 rk" and P: "parents_ok h1 rt S1 ps"
    and ns: "set ns = {t \<in> S1. clades (h1 t) \<noteq> []}" "distinct ns"
  shows "\<exists>st. for_each (splice_node rt minlen) (h1, ps) ns = Inr st \<and>
              pass2_inv rt minlen rk h1 S1 ns st []"
proof -
  let ?I = "\<lambda>st rest. pass2_inv rt minlen rk h1 S1 ns st rest \<and> set rest \<subseteq> set ns"
  have init: "?I (h1, ps) ns"
    unfolding pass2_inv_def fst_conv snd_conv using T P ns
    by (intro conjI exI[of _ S1]) auto
  have step: "\<exists>s1. splice_node rt minlen s x = Inr s1 \<and> ?I s1 xs" if "?I s (x # xs)" for s x xs
    using pass2_step[of rt minlen rk h1 S1 ns s x xs] that by auto
  have "\<exists>st. for_each (splice_node rt minlen) (h1, ps) ns = Inr st \<and> ?I st []"
    by (rule for_each_total[where I = ?I, OF init]) (rule step)
  then show ?thesis by blast
qed

section \<open>The Collapser on a tree\<close>

lemma collapse_tree:
  assumes T: "tree_nodes h rt S rk" and run: "collapse_polytomies h rt minlen = Some (Inr h')"
  obtains h1 S1 S2 where
    "S1 = S - {t \<in> S. clades (h t) = [] \<and> \<not> long_branch minlen h t}"
    "S2 = S1 - {n \<in> S1. clades (h1 n) \<noteq> [] \<and> \<not> skip_node rt minlen h1 n}"
    "tree_nodes h1 rt S1 rk" "tree_nodes h' rt S2 rk"
    "\<forall>n. branch_length (h1 n) = branch_length (h n)"
    "\<forall>n. branch_length (h' n) = branch_length (h n)"
    "\<forall>n. clades (h n) = [] \<longrightarrow> h1 n = h n"
    "\<forall>n. clades (h1 n) = [] \<longrightarrow> h' n = h1 n"
    "\<forall>n\<in>S. clades (h1 n) = filter (\<lambda>c. c \<in> S1) (clades (h n))"
    "\<forall>n\<in>S2. clades (h' n) \<noteq> [] \<longrightarrow> clades (h1 n) \<noteq> []"
proof -
  from get_parents_tree[OF T] obtain ps where ps: "get_parents h rt = Some ps" "parents_ok h rt S ps" by blast
  from get_terminals_tree[OF T] obtain tips where tips: "get_terminals h rt = Some tips"
    "set tips = {t \<in> S. clades (h t) = []}" "distinct tips" by blast
  from run ps(1) tips(1) obtain h1 where h1: "for_each (prune_tip minlen ps) h tips = Inr h1"
    by (auto simp: collapse_polytomies_def prune_tips_def split: sum.splits option.splits)
  from pass1_loop[OF T ps(2) tips(2,3) h1] obtain S1 where
    S1: "tree_nodes h1 rt S1 rk" "parents_ok h1 rt S1 ps" "S1 \<subseteq> S"
      "\<forall>n. branch_length (h1 n) = branch_length (h n)"
      "\<forall>n. clades (h n) = [] \<longrightarrow> h1 n = h n"
      "\<forall>n\<in>S. clades (h1 n) = filter (\<lambda>c. c \<in> S1) (clades (h n))"
      "S - S1 = {t \<in> set tips - set []. \<not> long_branch minlen h t}"
    unfolding pass1_inv_def by blast
  from get_nonterminals_tree[OF S1(1)] obtain ns where ns: "get_nonterminals h1 rt = Some ns"
    "set ns = {t \<in> S1. clades (h1 t) \<noteq> []}" "distinct ns" by blast
  from pass2_loop[OF S1(1,2) ns(2,3)] obtain st where
    st: "for_each (splice_node rt minlen) (h1, ps) ns = Inr st"
    "pass2_inv rt minlen rk h1 S1 ns st []" by blast
  have h': "h' = fst st"
    using run ps(1) tips(1) h1 ns(1) st(1)
    by (simp add: collapse_polytomies_def prune_tips_def remove_internal_branches_def)
  from st(2) obtain S2 where
    S2: "tree_nodes h' rt S2 rk" "S2 \<subseteq> S1"
      "\<forall>n. branch_length (h' n) = branch_length (h1 n)"
      "\<forall>n. clades (h1 n) = [] \<longrightarrow> h' n = h1 n"
      "\<forall>n\<in>S2. clades (h' n) \<noteq> [] \<longrightarrow> clades (h1 n) \<noteq> []"
      "S1 - S2 = {n \<in> set ns - set []. \<not> skip_node rt minlen h1 n}"
    unfolding pass2_inv_def h' by blast
  have e1: "S1 = S - {t \<in> S. clades (h t) = [] \<and> \<not> long_branch minlen h t}"
    using S1(3,7) tips(2) by auto
  have e2: "S2 = S1 - {n \<in> S1. clades (h1 n) \<noteq> [] \<and> \<not> skip_node rt minlen h1 n}"
    using S2(2,6) ns(2) by auto
  show ?thesis
    by (rule that[OF e1 e2 S1(1) S2(1) S1(4) _ S1(5) S2(4) S1(6) S2(5)]) (simp add: S2(3) S1(4))
qed

lemma collapse_tips_defined:
  assumes T: "tree_nodes h rt S rk" and run: "collapse_polytomies h rt minlen = Some (Inr h')"
  shows "\<forall>t\<in>S. clades (h t) = [] \<longrightarrow> branch_length (h t) \<noteq> None"
proof -
  from get_parents_tree[OF T] obtain ps where ps: "get_parents h rt = Some ps" by blast
  from get_terminals_tree[OF T] obtain tips where tips: "get_terminals h rt = Some tips"
    "set tips = {t \<in> S. clades (h t) = []}" by blast
  from run ps tips(1) obtain h1 where h1: "for_each (prune_tip minlen ps) h tips = Inr h1"
    by (auto simp: collapse_polytomies_def prune_tips_def split: sum.splits option.splits)
  from prune_tips_defined[OF h1] tips(2) show ?thesis by blast
qed

lemma collapse_fixpoint:
  assumes T: "tree_nodes h rt S rk"
    and tips: "\<forall>t\<in>S. clades (h t) = [] \<longrightarrow> (\<exists>b. branch_length (h t) = Some b \<and> minlen < b)"
    and inner: "\<forall>v\<in>S. v \<noteq> rt \<and> clades (h v) \<noteq> [] \<longrightarrow> long_branch minlen h v"
  shows "collapse_polytomies h rt minlen = Some (Inr h)"
proof -
  from get_parents_tree[OF T] obtain ps where ps: "get_parents h rt = Some ps" by blast
  from get_terminals_tree[OF T] obtain ts where ts: "get_terminals h rt = Some ts"
    "set ts = {t \<in> S. clades (h t) = []}" by blast
  from get_nonterminals_tree[OF T] obtain ns where ns: "get_nonterminals h rt = Some ns"
    "set ns = {t \<in> S. clades (h t) \<noteq> []}" by blast
  have "\<forall>t\<in>set ts. prune_tip minlen ps h t = Inr h"
    using tips ts(2) by (auto simp: prune_tip_def)
  then have p1: "for_each (prune_tip minlen ps) h ts = Inr h" by (rule for_each_skip)
  have "\<forall>n\<in>set ns. splice_node rt minlen (h, ps) n = Inr (h, ps)"
  proof
    fix n assume "n \<in> set ns"
    then have "n \<in> S" "clades (h n) \<noteq> []" using ns(2) by auto
    then have "skip_node rt minlen h n"
      using inner skip_long[of n rt minlen h]
      by (cases "n = rt") (auto simp: skip_node_def split: option.splits)
    then show "splice_node rt minlen (h, ps) n = Inr (h, ps)" by (rule splice_node_skip)
  qed
  then have p2: "for_each (splice_node rt minlen) (h, ps) ns = Inr (h, ps)" by (rule for_each_skip)
  show ?thesis
    using ps ts(1) ns(1) p1 p2
    by (simp add: collapse_polytomies_def prune_tips_def remove_internal_branches_def)
qed

section \<open>The Collapser on the examples\<close>

lemma ex_emptied_tree: "tree_nodes ex_emptied 0 {0, 1, 2, 3} ex_rank"
  by (simp add: tree_nodes_def ex_emptied_def ex_rank_def new_clade_def no_objects_def)

lemma ex_spliced_tree: "tree_nodes ex_spliced 0 {0, 1, 2, 3, 4} ex_rank"
  by (auto simp: tree_nodes_def ex_spliced_def ex_rank_def new_clade_def no_objects_def)

lemma ex_emptied_collapse:
  "collapse_polytomies ex_emptied 0 (1 / 2) = Some (Inr ex_emptied_collapsed)"
  by (simp add: ex_emptied_collapsed_def ex_emptied_def collapse_eval)

lemma ex_spliced_collapse:
  "collapse_polytomies ex_spliced 0 (1 / 2) = Some (Inr ex_spliced_collapsed)"
  by (simp add: ex_spliced_collapsed_def ex_spliced_def collapse_eval)

lemma ex_spliced_tips: "tips_above (1 / 2) ex_spliced_collapsed 0"
  by (simp add: tips_above_def ex_spliced_collapsed_def ex_spliced_def collapse_eval)

lemma ex_spliced_get_parents: "get_parents ex_spliced 0 = Some ex_spliced_parents"
  by (simp add: ex_spliced_parents_def ex_spliced_def collapse_eval)

lemma ex_spliced_inner: "\<not> is_terminal ex_spliced 0"
  by (simp add: ex_spliced_def collapse_eval)

lemma ex_spliced_tips_defined: "tips_defined ex_spliced {0, 1, 2, 3, 4}"
  by (simp add: tips_defined_def ex_spliced_def collapse_eval del: not_None_eq)

lemma ex_spliced_prune:
  "prune_tips (1 / 2) ex_spliced_parents ex_spliced 0 = Some (Inr ex_spliced_pruned)"
  by (simp add: ex_spliced_pruned_def ex_spliced_parents_def ex_spliced_def collapse_eval)

section \<open>Looking up the labels\<close>

lemma extend_labels_Cons:
  "extend_labels d acc (tn # tns) =
     (case d tn of None \<Rightarrow> Inl KeyError | Some new \<Rightarrow> extend_labels d (acc @ new) tns)"
  by (simp add: extend_labels_def split: option.splits)

lemma extend_labels_Nil: "extend_labels d acc [] = Inr acc"
  by (simp add: extend_labels_def)

lemma extend_labels_missing:
  "\<exists>x\<in>set tns. d x = None \<Longrightarrow> extend_labels d acc tns = Inl KeyError"
  by (induction tns arbitrary: acc) (auto simp: extend_labels_Cons extend_labels_Nil split: option.splits)

lemma extend_labels_found:
  "extend_labels d acc tns = Inr ls \<Longrightarrow>
     set tns \<subseteq> dom d \<and> ls = acc @ concat (map (\<lambda>tn. the (d tn)) tns)"
proof (induction tns arbitrary: acc)
  case Nil
  then show ?case by (simp add: extend_labels_Nil)
next
  case (Cons tn tns)
  then obtain new where new: "d tn = Some new" "extend_labels d (acc @ new) tns = Inr ls"
    by (auto simp: extend_labels_Cons split: option.splits)
  from Cons.IH[OF new(2)] show ?case using new(1) by auto
qed

lemma label_tip_missing:
  assumes "name (g v) = Some n" "x \<in> set (tip_identifiers n)" "d x = None"
  shows "label_tip d g v = Inl KeyError"
proof (cases "CHR ''|'' \<in> set n")
  case True
  then have "\<exists>x\<in>set (split_bar n). d x = None" using assms(2,3) by (auto simp: tip_identifiers_def)
  then have "extend_labels d [] (split_bar n) = Inl KeyError" by (rule extend_labels_missing)
  then show ?thesis using assms(1) True by (simp add: label_tip_def)
next
  case False
  then have "d n = None" using assms(2,3) by (simp add: tip_identifiers_def)
  then show ?thesis using assms(1) False by (simp add: label_tip_def)
qed

lemma label_node_missing:
  assumes "name (g v) = Some n" "x \<in> set (split_bar n)" "d x = None"
  shows "label_node d g v = Inl KeyError"
proof -
  have "extend_labels d [] (split_bar n) = Inl KeyError"
    using assms(2,3) by (intro extend_labels_missing) blast
  then show ?thesis using assms(1) by (simp add: label_node_def)
qed

lemma label_tip_found:
  assumes "label_tip d g v = Inr g'"
  shows "\<exists>n. name (g v) = Some n \<and> set (tip_identifiers n) \<subseteq> dom d \<and>
             g' = g(v := (g v)\<lparr>labels := Some (concat (map (\<lambda>tn. the (d tn)) (tip_identifiers n)))\<rparr>)"
proof -
  from assms obtain n where n: "name (g v) = Some n" by (auto simp: label_tip_def split: option.splits)
  show ?thesis
  proof (cases "CHR ''|'' \<in> set n")
    case True
    with assms n obtain ls where ls: "extend_labels d [] (split_bar n) = Inr ls"
      "g' = g(v := (g v)\<lparr>labels := Some ls\<rparr>)"
      by (auto simp: label_tip_def split: sum.splits)
    from extend_labels_found[OF ls(1)] show ?thesis using n True ls(2) by (simp add: tip_identifiers_def)
  next
    case False
    with assms n obtain ls where ls: "d n = Some ls" "g' = g(v := (g v)\<lparr>labels := Some ls\<rparr>)"
      by (auto simp: label_tip_def split: option.splits)
    then show ?thesis using n False by (auto simp: tip_identifiers_def)
  qed
qed

lemma label_node_found:
  assumes "label_node d g v = Inr g'"
  shows "(\<forall>n. name (g v) = Some n \<longrightarrow> set (split_bar n) \<subseteq> dom d \<and>
             g' = g(v := (g v)\<lparr>labels := Some (concat (map (\<lambda>tn. the (d tn)) (split_bar n)))\<rparr>)) \<and>
         (name (g v) = None \<longrightarrow> g' = g(v := (g v)\<lparr>name := Some [], labels := Some []\<rparr>))"
proof (cases "name (g v)")
  case None
  then show ?thesis using assms by (simp add: label_node_def)
next
  case (Some n)
  with assms obtain ls where ls: "extend_labels d [] (split_bar n) = Inr ls"
      "g' = g(v := (g v)\<lparr>labels := Some ls\<rparr>)"
    by (auto simp: label_node_def split: sum.splits)
  from extend_labels_found[OF ls(1)] show ?thesis using Some ls(2) by simp
qed

lemma label_tips_found:
  "for_each (label_tip d) g tips = Inr g' \<Longrightarrow>
     (\<forall>t\<in>set tips. \<exists>n. name (g t) = Some n \<and> set (tip_identifiers n) \<subseteq> dom d) \<and>
     (\<forall>v. name (g' v) = name (g v))"
proof (induction tips arbitrary: g)
  case Nil
  then show ?case by simp
next
  case (Cons t tips)
  then obtain g1 where g1: "label_tip d g t = Inr g1" "for_each (label_tip d) g1 tips = Inr g'"
    by (auto split: sum.splits)
  from label_tip_found[OF g1(1)] obtain n where
    n: "name (g t) = Some n" "set (tip_identifiers n) \<subseteq> dom d" and nm: "\<forall>v. name (g1 v) = name (g v)"
    by auto
  from Cons.IH[OF g1(2)] show ?case using n nm by auto
qed

lemma label_nodes_found:
  "for_each (label_node d) g ns = Inr g' \<Longrightarrow>
     \<forall>v\<in>set ns. \<forall>n. name (g v) = Some n \<longrightarrow> set (split_bar n) \<subseteq> dom d"
proof (induction ns arbitrary: g)
  case Nil
  then show ?case by simp
next
  case (Cons x ns)
  then obtain g1 where g1: "label_node d g x = Inr g1" "for_each (label_node d) g1 ns = Inr g'"
    by (auto split: sum.splits)
  from label_node_found[OF g1(1)] have
    a: "\<forall>n. name (g x) = Some n \<longrightarrow> set (split_bar n) \<subseteq> dom d"
    and nm: "\<forall>v n. name (g v) = Some n \<longrightarrow> name (g1 v) = Some n"
    by (cases "name (g x)"; auto)+
  from Cons.IH[OF g1(2)] show ?case using a nm by auto
qed

lemma set_diff_empty_iff:
  "set_diff d h tips = [] \<longleftrightarrow> (\<forall>t\<in>set tips. \<exists>n. name (h t) = Some n \<and> n \<in> dom d)"
  by (auto simp: set_diff_def filter_empty_conv split: option.splits)

lemma annotate_tree_outcome:
  "map_option snd (annotate_tree h rt d minlen cb) = map_option snd (annotate_tree h rt d minlen cb')"
  by (simp add: annotate_tree_def Let_def split: option.splits sum.splits)

lemma annotate_tree_log:
  assumes "annotate_tree h rt d minlen cb = Some (msgs, r)"
  shows "\<exists>tips0. get_terminals h rt = Some tips0 \<and> msgs = validate d h tips0 cb"
  using assms by (auto simp: annotate_tree_def Let_def split: option.splits sum.splits)

lemma annotate_tree_found:
  assumes "annotate_tree h rt d minlen cb = Some (msgs, Inr h')"
  shows "\<exists>h1 tips h2 ns. collapse_polytomies h rt minlen = Some (Inr h1) \<and>
           get_terminals h1 rt = Some tips \<and> for_each (label_tip d) h1 tips = Inr h2 \<and>
           get_nonterminals h2 rt = Some ns \<and> for_each (label_node d) h2 ns = Inr h' \<and>
           (\<forall>t\<in>set tips. \<exists>n. name (h1 t) = Some n \<and> set (tip_identifiers n) \<subseteq> dom d) \<and>
           (\<forall>v\<in>set ns. \<forall>n. name (h1 v) = Some n \<longrightarrow> set (split_bar n) \<subseteq> dom d)"
proof -
  from assms obtain h1 tips h2 ns where
    r: "collapse_polytomies h rt minlen = Some (Inr h1)" "get_terminals h1 rt = Some tips"
       "for_each (label_tip d) h1 tips = Inr h2" "get_nonterminals h2 rt = Some ns"
       "for_each (label_node d) h2 ns = Inr h'"
    by (auto simp: annotate_tree_def Let_def split: option.splits sum.splits)
  from label_tips_found[OF r(3)] have
    t: "\<forall>t\<in>set tips. \<exists>n. name (h1 t) = Some n \<and> set (tip_identifiers n) \<subseteq> dom d"
    and nm: "\<forall>v. name (h2 v) = name (h1 v)" by auto
  from label_nodes_found[OF r(5)] nm have
    n: "\<forall>v\<in>set ns. \<forall>n. name (h1 v) = Some n \<longrightarrow> set (split_bar n) \<subseteq> dom d" by simp
  show ?thesis
    apply (rule exI[of _ h1], rule exI[of _ tips], rule exI[of _ h2], rule exI[of _ ns])
    using r t n by simp
qed

lemma ex_spliced_annotate:
  "annotate_tree ex_spliced 0 ex_table (1 / 2) True = Some ([Mismatch [Some ''C'']], Inl KeyError)"
  by (simp add: ex_table_def ex_spliced_def annotate_eval)

lemma ex_emptied_annotate:
  "annotate_tree ex_emptied 0 ex_table (1 / 2) True = Some ([], Inr ex_emptied_annotated)"
  by (simp add: ex_emptied_annotated_def ex_table_def ex_emptied_def annotate_eval)

lemma ex_emptied_collapsed_tips: "get_terminals ex_emptied_collapsed 0 = Some [1]"
  by (simp add: ex_emptied_collapsed_def ex_emptied_def collapse_eval)

section \<open>One step of the serializer, and its loop\<close>

lemma node_variant_sampled:
  assumes "ls \<noteq> []" "node_variant us ls = Inr (variant, intermed, us')"
  shows "intermed = sort (reversed_fields ls) \<and> variant = hd intermed ! 3 \<and>
         3 < length (hd intermed) \<and> us' = us"
  using assms by (auto simp: node_variant_def reversed_fields_def Let_def split: if_splits)

lemma sort_hd_least:
  fixes xs :: "('a::linorder) list"
  assumes "x \<in> set xs"
  shows "hd (sort xs) \<le> x"
proof -
  have s: "sorted (sort xs)" by simp
  have x: "x \<in> set (sort xs)" using assms by simp
  then obtain y ys where e: "sort xs = y # ys" by (cases "sort xs") auto
  then show ?thesis using s x by auto
qed

lemma map_of_update_same: "map_of (AList.update k v al) k = Some v"
  by (simp add: update_conv')

lemma serialize_node_step:
  assumes "serialize_node h rt ps (obj0, vd0, us0) x = Inr (obj1, vd1, us1)"
  shows "\<exists>variant payload. vd1 = vd0(x \<mapsto> variant) \<and>
           nodes obj1 = AList.update variant payload (nodes obj0) \<and>
           (labels (h x) = Some [] \<longrightarrow> variant = ''unsampled'' @ str us0 \<and> payload = [] \<and> us1 = Suc us0) \<and>
           (labels (h x) \<noteq> Some [] \<longrightarrow> us1 = us0)"
proof -
  from assms obtain ls variant intermed where
    r: "labels (h x) = Some ls" "node_variant us0 ls = Inr (variant, intermed, us1)"
       "vd1 = vd0(x \<mapsto> variant)" "nodes obj1 = AList.update variant intermed (nodes obj0)"
    by (auto simp: serialize_node_def Let_def split: sum.splits option.splits if_splits prod.splits)
  have "labels (h x) = Some [] \<longrightarrow> variant = ''unsampled'' @ str us0 \<and> intermed = [] \<and> us1 = Suc us0"
    using r(1,2) by (auto simp: node_variant_def)
  moreover have "labels (h x) \<noteq> Some [] \<longrightarrow> us1 = us0"
    using r(1,2) by (auto simp: node_variant_def Let_def split: if_splits)
  ultimately show ?thesis using r(3,4) by blast
qed

lemma serialize_numbering_loop:
  assumes "for_each (serialize_node h rt ps) (obj0, vd0, us0) order = Inr (obj, vd, us)"
    and "distinct order"
  shows "us = us0 + length (filter (\<lambda>v. labels (h v) = Some []) order) \<and>
         (\<forall>i<length order. labels (h (order ! i)) = Some [] \<longrightarrow>
            vd (order ! i) = Some (''unsampled'' @ str (us0 + unsampled_before h order i))) \<and>
         (\<forall>v. v \<notin> set order \<longrightarrow> vd v = vd0 v) \<and>
         (\<forall>v\<in>set order. \<exists>variant. vd v = Some variant \<and> variant \<in> fst ` set (nodes obj)) \<and>
         fst ` set (nodes obj0) \<subseteq> fst ` set (nodes obj)"
  using assms
proof (induction order arbitrary: obj0 vd0 us0)
  case Nil
  then show ?case by simp
next
  case (Cons x xs)
  from Cons.prems(1) obtain st1 where st1: "serialize_node h rt ps (obj0, vd0, us0) x = Inr st1"
    "for_each (serialize_node h rt ps) st1 xs = Inr (obj, vd, us)"
    by (auto split: sum.splits)
  obtain obj1 vd1 us1 where e: "st1 = (obj1, vd1, us1)" by (cases st1)
  from serialize_node_step[OF st1(1)[unfolded e]] obtain variant payload where
    s: "vd1 = vd0(x \<mapsto> variant)" "nodes obj1 = AList.update variant payload (nodes obj0)"
       "labels (h x) = Some [] \<longrightarrow> variant = ''unsampled'' @ str us0 \<and> payload = [] \<and> us1 = Suc us0"
       "labels (h x) \<noteq> Some [] \<longrightarrow> us1 = us0" by blast
  have d: "x \<notin> set xs" "distinct xs" using Cons.prems(2) by auto
  from Cons.IH[OF st1(2)[unfolded e] d(2)] have
    IH: "us = us1 + length (filter (\<lambda>v. labels (h v) = Some []) xs)"
        "\<forall>i<length xs. labels (h (xs ! i)) = Some [] \<longrightarrow>
            vd (xs ! i) = Some (''unsampled'' @ str (us1 + unsampled_before h xs i))"
        "\<forall>v. v \<notin> set xs \<longrightarrow> vd v = vd1 v"
        "\<forall>v\<in>set xs. \<exists>variant. vd v = Some variant \<and> variant \<in> fst ` set (nodes obj)"
        "fst ` set (nodes obj1) \<subseteq> fst ` set (nodes obj)"
    by auto
  have keys1: "fst ` set (nodes obj1) = insert variant (fst ` set (nodes obj0))"
    by (simp add: s(2) dom_update)
  have vx: "vd x = Some variant" using IH(3) d(1) s(1) by simp
  have a: "us = us0 + length (filter (\<lambda>v. labels (h v) = Some []) (x # xs))"
    using IH(1) s(3,4) by auto
  have b: "vd ((x # xs) ! i) = Some (''unsampled'' @ str (us0 + unsampled_before h (x # xs) i))"
    if "i < length (x # xs)" "labels (h ((x # xs) ! i)) = Some []" for i
  proof (cases i)
    case 0
    then show ?thesis using that vx s(3) by (simp add: unsampled_before_def)
  next
    case (Suc j)
    then have "vd (xs ! j) = Some (''unsampled'' @ str (us1 + unsampled_before h xs j))"
      using that IH(2) by simp
    moreover have "us1 + unsampled_before h xs j = us0 + unsampled_before h (x # xs) (Suc j)"
      using s(3,4) by (auto simp: unsampled_before_def)
    ultimately show ?thesis using Suc by simp
  qed
  have c: "\<forall>v. v \<notin> set (x # xs) \<longrightarrow> vd v = vd0 v" using IH(3) s(1) by auto
  have e1: "\<forall>v\<in>set (x # xs). \<exists>variant. vd v = Some variant \<and> variant \<in> fst ` set (nodes obj)"
    using IH(4,5) vx keys1 by auto
  have f: "fst ` set (nodes obj0) \<subseteq> fst ` set (nodes obj)" using IH(5) keys1 by auto
  show ?case using a b c e1 f by blast
qed

lemma serialize_numbering_order:
  assumes "level_traverse h [rt] = Some order" "distinct order"
    and "serialize_loop h rt = Some (Inr (obj, vd, us))"
  shows "(\<forall>i<length order. labels (h (order ! i)) = Some [] \<longrightarrow>
            vd (order ! i) = Some (''unsampled'' @ str (unsampled_before h order i)) \<and>
            ''unsampled'' @ str (unsampled_before h order i) \<in> fst ` set (nodes obj)) \<and>
         us = length (filter (\<lambda>v. labels (h v) = Some []) order)"
proof -
  from assms(1,3) obtain ps where
    run: "for_each (serialize_node h rt ps) (\<lparr>nodes = [], edges = []\<rparr>, Map.empty, 0) order = Inr (obj, vd, us)"
    by (auto simp: serialize_loop_def split: option.splits)
  from serialize_numbering_loop[OF run assms(2)] have
    r: "us = 0 + length (filter (\<lambda>v. labels (h v) = Some []) order)"
       "\<forall>i<length order. labels (h (order ! i)) = Some [] \<longrightarrow>
            vd (order ! i) = Some (''unsampled'' @ str (0 + unsampled_before h order i))"
       "\<forall>v\<in>set order. \<exists>variant. vd v = Some variant \<and> variant \<in> fst ` set (nodes obj)"
    by auto
  show ?thesis
  proof (intro conjI allI impI)
    fix i assume i: "i < length order" "labels (h (order ! i)) = Some []"
    show v: "vd (order ! i) = Some (''unsampled'' @ str (unsampled_before h order i))"
      using r(2) i by simp
    have "order ! i \<in> set order" using i(1) by simp
    then obtain variant where "vd (order ! i) = Some variant" "variant \<in> fst ` set (nodes obj)"
      using r(3) by blast
    then show "''unsampled'' @ str (unsampled_before h order i) \<in> fst ` set (nodes obj)"
      using v by simp
  next
    show "us = length (filter (\<lambda>v. labels (h v) = Some []) order)" using r(1) by simp
  qed
qed

lemma ex_unsampled_tree: "tree_nodes ex_unsampled 0 {0, 1, 2, 3, 4} ex_unsampled_rank"
  by (auto simp: tree_nodes_def ex_unsampled_def ex_unsampled_rank_def new_clade_def no_objects_def)

lemma ex_unsampled_level: "level_traverse ex_unsampled [0] = Some [0, 1, 2, 3, 4]"
  by (simp add: ex_unsampled_def traverse_eval new_clade_def no_objects_def)

lemma ex_unsampled_loop:
  "\<exists>obj vd. serialize_loop ex_unsampled 0 = Some (Inr (obj, vd, 3))"
  by (simp add: ex_unsampled_def serialize_eval)

lemma ex_two_labels_sorted:
  "sort (reversed_fields [''B|acc2|r|c|2021-02-01'', ''A|acc1|r|c|2021-01-01'']) =
     [[''2021-01-01'', ''c'', ''r'', ''acc1'', ''A''], [''2021-02-01'', ''c'', ''r'', ''acc2'', ''B'']]"
  by (simp add: reversed_fields_def)

lemma ex_two_labels_node:
  "serialize_node ex_two_labels 0 Map.empty (\<lparr>nodes = [], edges = []\<rparr>, Map.empty, 0) 0 =
     Inr (\<lparr>nodes = [(''acc1'', [[''2021-01-01'', ''c'', ''r'', ''acc1'', ''A''],
                                 [''2021-02-01'', ''c'', ''r'', ''acc2'', ''B'']])],
           edges = []\<rparr>, [0 \<mapsto> ''acc1''], 0)"
  by (simp add: ex_two_labels_def serialize_eval)

lemma serialize_node_entry:
  assumes "serialize_node h rt ps (obj0, vd0, us0) x = Inr (obj1, vd1, us1)"
  shows "\<exists>variant. vd1 = vd0(x \<mapsto> variant) \<and>
           nodes obj1 = AList.update variant (node_payload h x) (nodes obj0) \<and>
           (x = rt \<longrightarrow> edges obj1 = edges obj0) \<and>
           (x \<noteq> rt \<longrightarrow> (\<exists>p pv b. ps x = Some p \<and> vd1 p = Some pv \<and> branch_length (h x) = Some b \<and>
              edges obj1 = edges obj0 @ [(pv, variant, round2 b, confidence (h x))]))"
proof -
  from assms obtain ls variant intermed where
    r: "labels (h x) = Some ls" "node_variant us0 ls = Inr (variant, intermed, us1)"
       "vd1 = vd0(x \<mapsto> variant)" "nodes obj1 = AList.update variant intermed (nodes obj0)"
    by (auto simp: serialize_node_def Let_def split: sum.splits option.splits if_splits prod.splits)
  have p: "intermed = node_payload h x"
    using r(1,2) by (auto simp: node_variant_def node_payload_def reversed_fields_def Let_def split: if_splits)
  have e1: "x = rt \<longrightarrow> edges obj1 = edges obj0"
    using assms r(1,2) by (auto simp: serialize_node_def Let_def split: option.splits if_splits)
  have e2: "x \<noteq> rt \<longrightarrow> (\<exists>p pv b. ps x = Some p \<and> vd1 p = Some pv \<and> branch_length (h x) = Some b \<and>
              edges obj1 = edges obj0 @ [(pv, variant, round2 b, confidence (h x))])"
    using assms r(1,2) by (auto simp: serialize_node_def Let_def split: option.splits if_splits)
  show ?thesis using r(3,4) p e1 e2 by blast
qed

lemma serialize_overwrite_loop:
  assumes "for_each (serialize_node h rt ps) (obj0, vd0, us0) order = Inr (obj, vd, us)"
    and "distinct order" and "dom vd0 \<inter> set order = {}"
  shows "(\<forall>v. v \<notin> set order \<longrightarrow> vd v = vd0 v) \<and>
         (\<forall>v\<in>set order. vd v \<noteq> None) \<and>
         (\<forall>k. map_of (nodes obj) k =
            (if filter (\<lambda>v. vd v = Some k) order = [] then map_of (nodes obj0) k
             else Some (node_payload h (last (filter (\<lambda>v. vd v = Some k) order))))) \<and>
         (distinct (map fst (nodes obj0)) \<longrightarrow> distinct (map fst (nodes obj))) \<and>
         fst ` set (nodes obj) = fst ` set (nodes obj0) \<union> {k. \<exists>v\<in>set order. vd v = Some k} \<and>
         edges obj = edges obj0 @ map (edge_of h ps vd) (filter (\<lambda>v. v \<noteq> rt) order) \<and>
         (\<forall>v\<in>set order. v \<noteq> rt \<longrightarrow>
            (\<exists>p. ps v = Some p \<and> vd p \<noteq> None \<and> branch_length (h v) \<noteq> None))"
  using assms
proof (induction order arbitrary: obj0 vd0 us0)
  case Nil
  then show ?case by simp
next
  case (Cons x xs)
  from Cons.prems(1) obtain st1 where st1: "serialize_node h rt ps (obj0, vd0, us0) x = Inr st1"
    "for_each (serialize_node h rt ps) st1 xs = Inr (obj, vd, us)"
    by (auto split: sum.splits)
  obtain obj1 vd1 us1 where e: "st1 = (obj1, vd1, us1)" by (cases st1)
  from serialize_node_entry[OF st1(1)[unfolded e]] obtain variant where
    s: "vd1 = vd0(x \<mapsto> variant)"
       "nodes obj1 = AList.update variant (node_payload h x) (nodes obj0)"
       "x = rt \<longrightarrow> edges obj1 = edges obj0"
       "x \<noteq> rt \<longrightarrow> (\<exists>p pv b. ps x = Some p \<and> vd1 p = Some pv \<and> branch_length (h x) = Some b \<and>
              edges obj1 = edges obj0 @ [(pv, variant, round2 b, confidence (h x))])"
    by blast
  have d: "x \<notin> set xs" "distinct xs" using Cons.prems(2) by auto
  have fresh0: "\<forall>v\<in>set xs. vd0 v = None" "vd0 x = None"
    using Cons.prems(3) by (auto simp: disjoint_iff domIff)
  have fresh: "dom vd1 \<inter> set xs = {}" using fresh0(1) d(1) s(1) by (auto simp: domIff)
  from Cons.IH[OF st1(2)[unfolded e] d(2) fresh] have
    I1: "\<forall>v. v \<notin> set xs \<longrightarrow> vd v = vd1 v"
    and I2: "\<forall>v\<in>set xs. vd v \<noteq> None"
    and I3: "\<forall>k. map_of (nodes obj) k =
            (if filter (\<lambda>v. vd v = Some k) xs = [] then map_of (nodes obj1) k
             else Some (node_payload h (last (filter (\<lambda>v. vd v = Some k) xs))))"
    and I4: "distinct (map fst (nodes obj1)) \<longrightarrow> distinct (map fst (nodes obj))"
    and I5: "fst ` set (nodes obj) = fst ` set (nodes obj1) \<union> {k. \<exists>v\<in>set xs. vd v = Some k}"
    and I6: "edges obj = edges obj1 @ map (edge_of h ps vd) (filter (\<lambda>v. v \<noteq> rt) xs)"
    and I7: "\<forall>v\<in>set xs. v \<noteq> rt \<longrightarrow>
            (\<exists>p. ps v = Some p \<and> vd p \<noteq> None \<and> branch_length (h v) \<noteq> None)"
    by blast+
  have vx: "vd x = Some variant" using I1 d(1) s(1) by simp
  have keep: "vd p = vd1 p" if "vd1 p \<noteq> None" for p
  proof -
    have "p \<in> dom vd1" using that by (simp add: domIff)
    then have "p \<notin> set xs" using fresh by blast
    then show ?thesis using I1 by blast
  qed
  have a: "\<forall>v. v \<notin> set (x # xs) \<longrightarrow> vd v = vd0 v" using I1 s(1) by auto
  have b: "\<forall>v\<in>set (x # xs). vd v \<noteq> None" using I2 vx by auto
  have c: "map_of (nodes obj) k =
            (if filter (\<lambda>v. vd v = Some k) (x # xs) = [] then map_of (nodes obj0) k
             else Some (node_payload h (last (filter (\<lambda>v. vd v = Some k) (x # xs)))))" for k
    using I3[rule_format, of k] vx s(2) by (simp add: update_conv')
  have dd: "distinct (map fst (nodes obj0)) \<longrightarrow> distinct (map fst (nodes obj))"
    using I4 s(2) by (simp add: distinct_update)
  have ee: "fst ` set (nodes obj) = fst ` set (nodes obj0) \<union> {k. \<exists>v\<in>set (x # xs). vd v = Some k}"
    using I5 s(2) vx by (auto simp: dom_update)
  have f: "edges obj = edges obj0 @ map (edge_of h ps vd) (filter (\<lambda>v. v \<noteq> rt) (x # xs))"
  proof (cases "x = rt")
    case True
    then show ?thesis using I6 s(3) by simp
  next
    case False
    with s(4) obtain p pv b where
      q: "ps x = Some p" "vd1 p = Some pv" "branch_length (h x) = Some b"
         "edges obj1 = edges obj0 @ [(pv, variant, round2 b, confidence (h x))]" by blast
    have "vd p = Some pv" using keep[of p] q(2) by simp
    then have "edge_of h ps vd x = (pv, variant, round2 b, confidence (h x))"
      using q(1,3) vx by (simp add: edge_of_def)
    then show ?thesis using I6 q(4) False by simp
  qed
  have g: "\<forall>v\<in>set (x # xs). v \<noteq> rt \<longrightarrow>
            (\<exists>p. ps v = Some p \<and> vd p \<noteq> None \<and> branch_length (h v) \<noteq> None)"
  proof (intro ballI impI)
    fix v assume v: "v \<in> set (x # xs)" "v \<noteq> rt"
    show "\<exists>p. ps v = Some p \<and> vd p \<noteq> None \<and> branch_length (h v) \<noteq> None"
    proof (cases "v = x")
      case True
      with s(4) v(2) obtain p pv b where
        q: "ps x = Some p" "vd1 p = Some pv" "branch_length (h x) = Some b" by blast
      have "vd p = Some pv" using keep[of p] q(2) by simp
      then show ?thesis using q True by simp
    next
      case False
      then show ?thesis using I7 v by simp
    qed
  qed
  show ?case using a b c dd ee f g by blast
qed

lemma last_filter_nth:
  assumes "j < length xs" "P (xs ! j)" "\<forall>j'<length xs. j < j' \<longrightarrow> \<not> P (xs ! j')"
  shows "last (filter P xs) = xs ! j"
proof -
  have xs: "xs = take j xs @ xs ! j # drop (Suc j) xs" using assms(1) by (rule id_take_nth_drop)
  have "\<forall>y\<in>set (drop (Suc j) xs). \<not> P y"
  proof
    fix y assume "y \<in> set (drop (Suc j) xs)"
    then obtain i where i: "i < length (drop (Suc j) xs)" "y = drop (Suc j) xs ! i"
      by (auto simp: in_set_conv_nth)
    then have "y = xs ! (Suc j + i)" "Suc j + i < length xs" using assms(1) by auto
    then show "\<not> P y" using assms(3) by auto
  qed
  then have "filter P (drop (Suc j) xs) = []" by (simp add: filter_empty_conv)
  then have "filter P xs = filter P (take j xs) @ [xs ! j]"
    using assms(2) by (subst xs) simp
  then show ?thesis by simp
qed

lemma card_image_less:
  assumes "finite S" "u \<in> S" "v \<in> S" "u \<noteq> v" "f u = f v"
  shows "card (f ` S) < card S"
proof -
  have "\<not> inj_on f S" using assms(2-5) by (auto simp: inj_on_def)
  then have "card (f ` S) \<noteq> card S" using eq_card_imp_inj_on[OF assms(1)] by blast
  then show ?thesis using card_image_le[OF assms(1), of f] by simp
qed

lemma ex_shared_reversed_tree: "tree_nodes ex_shared_reversed 0 {0, 1, 2} ex_rank"
  by (auto simp: tree_nodes_def ex_shared_reversed_def ex_rank_def new_clade_def no_objects_def)

lemma ex_shared_reversed_level: "level_traverse ex_shared_reversed [0] = Some [0, 1, 2]"
  by (simp add: ex_shared_reversed_def traverse_eval new_clade_def no_objects_def)

lemma ex_shared_reversed_loop:
  "serialize_loop ex_shared_reversed 0 =
     Some (Inr (\<lparr>nodes =
                  [(''acc1'', [[''2021-01-01'', ''c'', ''r'', ''acc1'', ''A'']]),
                   (''acc9'', [[''2021-01-03'', ''c'', ''r'', ''acc9'', ''C'']])],
                edges =
                  [(''acc1'', ''acc1'', 1, None),
                   (''acc1'', ''acc9'', 2, None)]\<rparr>,
                [0 \<mapsto> ''acc1'', 1 \<mapsto> ''acc1'', 2 \<mapsto> ''acc9''], 0))"
  by (simp add: ex_shared_reversed_def serialize_eval)
lemma ex_shared_accession_serialized:
  "serialize_tree ex_shared_accession 0 =
     Some (Inr \<lparr>nodes =
                  [(''acc1'', [[''2021-01-02'', ''c'', ''r'', ''acc1'', ''B'']]),
                   (''acc9'', [[''2021-01-03'', ''c'', ''r'', ''acc9'', ''C'']])],
                edges =
                  [(''acc1'', ''acc1'', 1, None),
                   (''acc1'', ''acc9'', 2, None)]\<rparr>)"
  by (simp add: ex_shared_accession_def serialize_eval)

section \<open>What the Collapser leaves on a tree\<close>

text \<open>
  On a tree, every node that \<^verbatim>\<open>collapse_polytomies\<close> leaves with children, the root
  apart, has a branch length above the threshold or an undefined one, and every tip of
  the input that it leaves has a branch length above the threshold. A node all of whose
  children were tips at or below the threshold is left as a tip, with its own branch
  length.
\<close>

lemma collapse_surviving_branches:
  assumes T: "tree_nodes h rt S rk" and run: "collapse_polytomies h rt minlen = Some (Inr h')"
  shows "\<exists>vs. preorder_traverse h' [rt] = Some vs \<and> set vs \<subseteq> S \<and>
     (\<forall>v\<in>set vs. v \<noteq> rt \<and> \<not> is_terminal h' v \<longrightarrow> long_branch minlen h' v) \<and>
     (\<forall>v\<in>set vs. is_terminal h v \<longrightarrow> (\<exists>b. branch_length (h' v) = Some b \<and> minlen < b)) \<and>
     (\<forall>v\<in>S. \<not> is_terminal h v \<and>
             (\<forall>c\<in>set (clades (h v)). is_terminal h c \<and> \<not> long_branch minlen h c) \<longrightarrow>
         v \<in> set vs \<and> is_terminal h' v \<and> branch_length (h' v) = branch_length (h v))"
proof (rule collapse_tree[OF T run])
  fix h1 S1 S2
  assume c: "S1 = S - {t \<in> S. clades (h t) = [] \<and> \<not> long_branch minlen h t}"
    "S2 = S1 - {n \<in> S1. clades (h1 n) \<noteq> [] \<and> \<not> skip_node rt minlen h1 n}"
    "tree_nodes h1 rt S1 rk" "tree_nodes h' rt S2 rk"
    "\<forall>n. branch_length (h1 n) = branch_length (h n)"
    "\<forall>n. branch_length (h' n) = branch_length (h n)"
    "\<forall>n. clades (h n) = [] \<longrightarrow> h1 n = h n"
    "\<forall>n. clades (h1 n) = [] \<longrightarrow> h' n = h1 n"
    "\<forall>n\<in>S. clades (h1 n) = filter (\<lambda>c. c \<in> S1) (clades (h n))"
    "\<forall>n\<in>S2. clades (h' n) \<noteq> [] \<longrightarrow> clades (h1 n) \<noteq> []"
  from preorder_tree[OF c(4)] obtain vs where vs: "preorder_traverse h' [rt] = Some vs" "set vs = S2"
    by blast
  have sub: "S2 \<subseteq> S" using c(1,2) by blast
  have A: "long_branch minlen h' v" if "v \<in> S2" "v \<noteq> rt" "\<not> is_terminal h' v" for v
  proof -
    have "clades (h1 v) \<noteq> []" using c(10) that by (auto simp: is_terminal_def)
    then have "skip_node rt minlen h1 v" using that(1) c(2) by blast
    then have "long_branch minlen h1 v" using skip_long[OF that(2)] by simp
    then show ?thesis using c(5,6) by (simp add: long_branch_def)
  qed
  have B: "\<exists>b. branch_length (h' v) = Some b \<and> minlen < b" if "v \<in> S2" "is_terminal h v" for v
  proof -
    have vS: "v \<in> S" using that(1) sub by blast
    have "long_branch minlen h v" using that c(1,2) by (auto simp: is_terminal_def)
    moreover have "branch_length (h v) \<noteq> None"
      using collapse_tips_defined[OF T run] vS that(2) by (auto simp: is_terminal_def)
    ultimately show ?thesis using c(6) by (auto simp: long_branch_def)
  qed
  have C: "v \<in> S2 \<and> is_terminal h' v \<and> branch_length (h' v) = branch_length (h v)"
    if "v \<in> S" "\<not> is_terminal h v"
       "\<forall>c\<in>set (clades (h v)). is_terminal h c \<and> \<not> long_branch minlen h c" for v
  proof -
    have v1: "v \<in> S1" using that(1,2) c(1) by (auto simp: is_terminal_def)
    have "\<forall>k\<in>set (clades (h v)). k \<notin> S1"
      using that(3) c(1) by (auto simp: is_terminal_def)
    then have e: "clades (h1 v) = []" using c(9) that(1) by (simp add: filter_empty_conv)
    then have "v \<in> S2" using v1 c(2) by blast
    moreover have "h' v = h1 v" using e c(8) by blast
    ultimately show ?thesis using e c(5,6) by (simp add: is_terminal_def)
  qed
  show ?thesis
  proof (intro exI[of _ vs] conjI)
    show "preorder_traverse h' [rt] = Some vs" by (rule vs(1))
    show "set vs \<subseteq> S" using vs(2) sub by simp
    show "\<forall>v\<in>set vs. v \<noteq> rt \<and> \<not> is_terminal h' v \<longrightarrow> long_branch minlen h' v"
      using A vs(2) by blast
    show "\<forall>v\<in>set vs. is_terminal h v \<longrightarrow> (\<exists>b. branch_length (h' v) = Some b \<and> minlen < b)"
      using B vs(2) by blast
    show "\<forall>v\<in>S. \<not> is_terminal h v \<and>
             (\<forall>c\<in>set (clades (h v)). is_terminal h c \<and> \<not> long_branch minlen h c) \<longrightarrow>
         v \<in> set vs \<and> is_terminal h' v \<and> branch_length (h' v) = branch_length (h v)"
      using C vs(2) by blast
  qed
qed

lemma collapse_surviving_branches_example:
  "tree_nodes ex_emptied 0 {0, 1, 2, 3} ex_rank \<and>
   collapse_polytomies ex_emptied 0 (1 / 2) = Some (Inr ex_emptied_collapsed) \<and>
   (\<exists>vs. preorder_traverse ex_emptied_collapsed [0] = Some vs \<and>
      1 \<in> set vs \<and> is_terminal ex_emptied_collapsed 1 \<and>
      branch_length (ex_emptied_collapsed 1) = branch_length (ex_emptied 1))"
proof -
  have a: "\<not> is_terminal ex_emptied 1 \<and>
     (\<forall>c\<in>set (clades (ex_emptied 1)). is_terminal ex_emptied c \<and> \<not> long_branch (1 / 2) ex_emptied c)"
    by (simp add: long_branch_def ex_emptied_def collapse_eval)
  from collapse_surviving_branches[OF ex_emptied_tree ex_emptied_collapse]
  obtain vs where r: "preorder_traverse ex_emptied_collapsed [0] = Some vs"
    "\<forall>v\<in>{0, 1, 2, 3}. \<not> is_terminal ex_emptied v \<and>
             (\<forall>c\<in>set (clades (ex_emptied v)). is_terminal ex_emptied c \<and> \<not> long_branch (1 / 2) ex_emptied c) \<longrightarrow>
         v \<in> set vs \<and> is_terminal ex_emptied_collapsed v \<and>
         branch_length (ex_emptied_collapsed v) = branch_length (ex_emptied v)"
    by (elim exE conjE) (rule that; assumption)
  from r(2)[rule_format, of 1] a have "1 \<in> set vs \<and> is_terminal ex_emptied_collapsed 1 \<and>
      branch_length (ex_emptied_collapsed 1) = branch_length (ex_emptied 1)" by simp
  then have "\<exists>vs. preorder_traverse ex_emptied_collapsed [0] = Some vs \<and>
      1 \<in> set vs \<and> is_terminal ex_emptied_collapsed 1 \<and>
      branch_length (ex_emptied_collapsed 1) = branch_length (ex_emptied 1)"
    using r(1) by blast
  then show ?thesis
    by (intro conjI) (rule ex_emptied_tree, rule ex_emptied_collapse)
qed

text \<open>
  When every tip of the tree that a first run returns has a defined branch length above
  the threshold, a second run with the same threshold returns the same store.
\<close>

lemma collapse_second_run_unchanged:
  assumes T: "tree_nodes h rt S rk" and run: "collapse_polytomies h rt minlen = Some (Inr h1)"
    and tips: "tips_above minlen h1 rt"
  shows "collapse_polytomies h1 rt minlen = Some (Inr h1)"
proof (rule collapse_tree[OF T run])
  fix g S1 S2
  assume c: "S2 = S1 - {n \<in> S1. clades (g n) \<noteq> [] \<and> \<not> skip_node rt minlen g n}"
    "tree_nodes h1 rt S2 rk"
    "\<forall>n. branch_length (g n) = branch_length (h n)"
    "\<forall>n. branch_length (h1 n) = branch_length (h n)"
    "\<forall>n\<in>S2. clades (h1 n) \<noteq> [] \<longrightarrow> clades (g n) \<noteq> []"
  from get_terminals_tree[OF c(2)] obtain ts where ts: "get_terminals h1 rt = Some ts"
    "set ts = {t \<in> S2. clades (h1 t) = []}" by blast
  have t: "\<forall>t\<in>S2. clades (h1 t) = [] \<longrightarrow> (\<exists>b. branch_length (h1 t) = Some b \<and> minlen < b)"
    using tips ts by (auto simp: tips_above_def list_all_iff split: option.splits)
  have i: "\<forall>v\<in>S2. v \<noteq> rt \<and> clades (h1 v) \<noteq> [] \<longrightarrow> long_branch minlen h1 v"
  proof (intro ballI impI)
    fix v assume v: "v \<in> S2" "v \<noteq> rt \<and> clades (h1 v) \<noteq> []"
    then have "clades (g v) \<noteq> []" using c(5) by blast
    then have "skip_node rt minlen g v" using v(1) c(1) by blast
    then have "long_branch minlen g v" using skip_long[of v rt minlen g] v(2) by simp
    then show "long_branch minlen h1 v" using c(3,4) by (simp add: long_branch_def)
  qed
  show ?thesis by (rule collapse_fixpoint[OF c(2) t i])
qed

lemma collapse_second_run_unchanged_example:
  "tree_nodes ex_spliced 0 {0, 1, 2, 3, 4} ex_rank \<and>
   collapse_polytomies ex_spliced 0 (1 / 2) = Some (Inr ex_spliced_collapsed) \<and>
   tips_above (1 / 2) ex_spliced_collapsed 0 \<and>
   collapse_polytomies ex_spliced_collapsed 0 (1 / 2) = Some (Inr ex_spliced_collapsed)"
  using collapse_second_run_unchanged[OF ex_spliced_tree ex_spliced_collapse ex_spliced_tips]
    ex_spliced_tree ex_spliced_collapse ex_spliced_tips
  by simp

section \<open>The post-condition of the Collapser\<close>

text \<open>
  C1. The claim: after \<^verbatim>\<open>collapse\<close> returns, every surviving node other than the root
  has a branch length above \<^verbatim>\<open>min_len\<close> or an undefined one; in particular an internal
  node whose children were all pruned in the first pass, and whose own branch is at or
  below the threshold, does not survive. On \<^verbatim>\<open>((A:0.1,B:0.1):0.1);\<close> with threshold
  0.5 both tips are pruned into the inner node. The second loop takes its list of
  non-terminal nodes after that, so it never examines the node: it survives as a tip
  named \<^verbatim>\<open>A|B\<close> with branch length 0.1, and the post-condition is false on the returned
  tree. On \<^verbatim>\<open>((A:0,B:0):0,C:1);\<close> with threshold 0 a branch of length zero survives in
  the same way.
\<close>

theorem collapse_emptied_node_survives:
  "collapse_result ex_emptied 0 (1 / 2) =
     Some (Inr [(0, new_clade None None [1] None),
                (1, new_clade (Some ''A|B'') (Some (1 / 10)) [] None)]) \<and>
   collapse_postcondition ex_emptied 0 (1 / 2) = Some (Inr False) \<and>
   collapse_result ex_zero_branch 0 0 =
     Some (Inr [(0, new_clade None None [1, 4] None),
                (1, new_clade (Some ''A|B'') (Some 0) [] None),
                (4, new_clade (Some ''C'') (Some 1) [] None)]) \<and>
   collapse_postcondition ex_zero_branch 0 0 = Some (Inr False)"
  by (simp add: collapse_result_def surviving_def collapse_postcondition_def no_short_branch_def
      long_branch_def ex_emptied_def ex_zero_branch_def collapse_eval)

section \<open>Running the Collapser twice\<close>

text \<open>
  C2. The claim: a second run with the same threshold on the tree of a first run changes
  nothing. On \<^verbatim>\<open>((A:0.1,B:0.1):0.1);\<close> the first run leaves the root with one tip named
  \<^verbatim>\<open>A|B\<close> at branch length 0.1, which the second loop did not examine; the second run
  prunes that tip into the root, which then has the name \<^verbatim>\<open>A|B\<close> and no child.
\<close>

theorem collapse_second_run_changes:
  "collapse_result ex_emptied 0 (1 / 2) =
     Some (Inr [(0, new_clade None None [1] None),
                (1, new_clade (Some ''A|B'') (Some (1 / 10)) [] None)]) \<and>
   collapse_again ex_emptied 0 (1 / 2) =
     Some (Inr [(0, new_clade (Some ''A|B'') None [] None)])"
  by (simp add: collapse_result_def collapse_again_def surviving_def ex_emptied_def collapse_eval)

section \<open>Undefined branch length on a tip\<close>

text \<open>
  C3. The claim: a tip whose \<^verbatim>\<open>branch_length\<close> is \<^verbatim>\<open>None\<close> is treated as having length
  zero, so it is pruned and its name folded into its parent, and no error is raised.
  On the tree \<^verbatim>\<open>(A,B:0.6);\<close> the first loop reaches the tip \<^verbatim>\<open>A\<close>, compares
  \<^verbatim>\<open>None > 0.5\<close> and raises \<^verbatim>\<open>TypeError\<close>: nothing is pruned.
\<close>

theorem collapse_undefined_tip_raises:
  "collapse_polytomies ex_undefined_tip 0 (1 / 2) = Some (Inl TypeError)"
  by (simp add: ex_undefined_tip_def collapse_eval)

section \<open>The second pass\<close>

text \<open>
  C4. On the tree that the first pass leaves, the second pass returns, and the nodes of
  its tree are the nodes it started with except those that have children, are not the
  root and have a defined branch length at or below the threshold: exactly these are
  spliced out. The root stays, and so does every node with an undefined branch length.
  In the returned tree the parent index maps every child to the node that holds it.
  One step of the loop on such a node \<open>n\<close> with parent \<open>p\<close> replaces the child list of
  \<open>p\<close> by that list without \<open>n\<close> followed by the children of \<open>n\<close>, maps these
  children to \<open>p\<close> in the index, and joins a non-empty name of \<open>n\<close> to the name of
  \<open>p\<close> (adopting it when \<open>p\<close> has none); on any other node the step changes nothing.
\<close>

theorem remove_internal_branches_iff:
  assumes T: "tree_nodes h rt S rk" and ps: "get_parents h rt = Some ps"
    and p1: "prune_tips minlen ps h rt = Some (Inr h1)"
  shows "(\<exists>ws h2 ps2 vs.
           preorder_traverse h1 [rt] = Some ws \<and>
           remove_internal_branches minlen ps h1 rt = Some (Inr (h2, ps2)) \<and>
           preorder_traverse h2 [rt] = Some vs \<and>
           (\<forall>v. v \<in> set vs \<longleftrightarrow>
              v \<in> set ws \<and>
              \<not> (\<not> is_terminal h1 v \<and> v \<noteq> rt \<and>
                 (\<exists>b. branch_length (h1 v) = Some b \<and> b \<le> minlen))) \<and>
           rt \<in> set vs \<and>
           (\<forall>v\<in>set ws. branch_length (h1 v) = None \<longrightarrow> v \<in> set vs) \<and>
           (\<forall>p\<in>set vs. \<forall>c\<in>set (clades (h2 p)). c \<in> set vs \<and> ps2 c = Some p)) \<and>
         (\<forall>g q n p b.
            q n = Some p \<and> n \<in> set (clades (g p)) \<and> p \<noteq> n \<and> n \<noteq> rt \<and>
            branch_length (g n) = Some b \<and> b \<le> minlen \<longrightarrow>
              (\<exists>q'. splice_node rt minlen (g, q) n =
                      Inr (g(p := (g p)\<lparr>clades := remove1 n (clades (g p)) @ clades (g n),
                                           name := (if truthy (name (g n)) then
                                                      (case name (g p) of None \<Rightarrow> name (g n)
                                                       | Some pn \<Rightarrow> Some (pn @ ''|'' @ the (name (g n))))
                                                    else name (g p))\<rparr>), q') \<and>
                    (\<forall>c. q' c = (if c \<in> set (clades (g n)) then Some p else q c)))) \<and>
         (\<forall>g q n. branch_length (g n) = None \<or> n = rt \<or>
                  (\<exists>b. branch_length (g n) = Some b \<and> minlen < b) \<longrightarrow>
              splice_node rt minlen (g, q) n = Inr (g, q))"
proof (intro conjI allI impI)
  have P: "parents_ok h rt S ps" by (rule get_parents_ok[OF T ps])
  from get_terminals_tree[OF T] obtain tips where tips: "get_terminals h rt = Some tips"
    "set tips = {t \<in> S. clades (h t) = []}" "distinct tips" by blast
  have h1: "for_each (prune_tip minlen ps) h tips = Inr h1"
    using p1 tips(1) by (simp add: prune_tips_def)
  from pass1_loop[OF T P tips(2,3) h1] obtain S1 where
    S1: "tree_nodes h1 rt S1 rk" "parents_ok h1 rt S1 ps"
    unfolding pass1_inv_def by blast
  from preorder_tree[OF S1(1)] obtain ws where ws: "preorder_traverse h1 [rt] = Some ws" "set ws = S1"
    by blast
  from get_nonterminals_tree[OF S1(1)] obtain ns where ns: "get_nonterminals h1 rt = Some ns"
    "set ns = {t \<in> S1. clades (h1 t) \<noteq> []}" "distinct ns" by blast
  from pass2_loop[OF S1(1,2) ns(2,3)] obtain st where
    st: "for_each (splice_node rt minlen) (h1, ps) ns = Inr st"
    "pass2_inv rt minlen rk h1 S1 ns st []" by blast
  obtain h2 ps2 where hp: "st = (h2, ps2)" by (cases st)
  from st(2) obtain S2 where
    S2: "tree_nodes h2 rt S2 rk" "parents_ok h2 rt S2 ps2" "S2 \<subseteq> S1"
      "S1 - S2 = {n \<in> set ns - set []. \<not> skip_node rt minlen h1 n}"
    unfolding pass2_inv_def hp fst_conv snd_conv by blast
  from preorder_tree[OF S2(1)] obtain vs where vs: "preorder_traverse h2 [rt] = Some vs" "set vs = S2"
    by blast
  have run: "remove_internal_branches minlen ps h1 rt = Some (Inr (h2, ps2))"
    using ns(1) st(1) hp by (simp add: remove_internal_branches_def)
  have mem: "v \<in> S2 \<longleftrightarrow>
              v \<in> S1 \<and>
              \<not> (\<not> is_terminal h1 v \<and> v \<noteq> rt \<and>
                 (\<exists>b. branch_length (h1 v) = Some b \<and> b \<le> minlen))" for v
  proof -
    have "v \<in> S2 \<longleftrightarrow> v \<in> S1 \<and> \<not> (clades (h1 v) \<noteq> [] \<and> \<not> skip_node rt minlen h1 v)"
      using S2(3,4) ns(2) by auto
    then show ?thesis by (auto simp: skip_node_iff is_terminal_def)
  qed
  show "\<exists>ws h2 ps2 vs.
           preorder_traverse h1 [rt] = Some ws \<and>
           remove_internal_branches minlen ps h1 rt = Some (Inr (h2, ps2)) \<and>
           preorder_traverse h2 [rt] = Some vs \<and>
           (\<forall>v. v \<in> set vs \<longleftrightarrow>
              v \<in> set ws \<and>
              \<not> (\<not> is_terminal h1 v \<and> v \<noteq> rt \<and>
                 (\<exists>b. branch_length (h1 v) = Some b \<and> b \<le> minlen))) \<and>
           rt \<in> set vs \<and>
           (\<forall>v\<in>set ws. branch_length (h1 v) = None \<longrightarrow> v \<in> set vs) \<and>
           (\<forall>p\<in>set vs. \<forall>c\<in>set (clades (h2 p)). c \<in> set vs \<and> ps2 c = Some p)"
  proof (rule exI[of _ ws], rule exI[of _ h2], rule exI[of _ ps2], rule exI[of _ vs], intro conjI)
    show "preorder_traverse h1 [rt] = Some ws" by (rule ws(1))
    show "remove_internal_branches minlen ps h1 rt = Some (Inr (h2, ps2))" by (rule run)
    show "preorder_traverse h2 [rt] = Some vs" by (rule vs(1))
    show "\<forall>v. v \<in> set vs \<longleftrightarrow>
              v \<in> set ws \<and>
              \<not> (\<not> is_terminal h1 v \<and> v \<noteq> rt \<and>
                 (\<exists>b. branch_length (h1 v) = Some b \<and> b \<le> minlen))"
      unfolding vs(2) ws(2) using mem by blast
    show "rt \<in> set vs" unfolding vs(2) by (rule tree_nodesD(2)[OF S2(1)])
    show "\<forall>v\<in>set ws. branch_length (h1 v) = None \<longrightarrow> v \<in> set vs"
      unfolding vs(2) ws(2) using mem by auto
    show "\<forall>p\<in>set vs. \<forall>c\<in>set (clades (h2 p)). c \<in> set vs \<and> ps2 c = Some p"
      unfolding vs(2) using S2(2) tree_nodesD(4)[OF S2(1)] by (auto simp: parents_ok_def)
  qed
next
  fix g :: heap and q :: parents and n p b
  assume a: "q n = Some p \<and> n \<in> set (clades (g p)) \<and> p \<noteq> n \<and> n \<noteq> rt \<and>
            branch_length (g n) = Some b \<and> b \<le> minlen"
  then have ns: "\<not> skip_node rt minlen g n" by (auto simp: skip_node_iff)
  let ?q' = "fold (\<lambda>child m. m(child \<mapsto> p)) (clades (g n)) q"
  have "splice_node rt minlen (g, q) n =
          Inr (g(p := (g p)\<lparr>clades := remove1 n (clades (g p)) @ clades (g n),
                               name := (if truthy (name (g n)) then
                                          (case name (g p) of None \<Rightarrow> name (g n)
                                           | Some pn \<Rightarrow> Some (pn @ ''|'' @ the (name (g n))))
                                        else name (g p))\<rparr>), ?q')"
    using ns a by (intro splice_node_splice) auto
  moreover have "\<forall>c. ?q' c = (if c \<in> set (clades (g n)) then Some p else q c)"
    by (simp add: fold_parent_update)
  ultimately show "\<exists>q'. splice_node rt minlen (g, q) n =
                      Inr (g(p := (g p)\<lparr>clades := remove1 n (clades (g p)) @ clades (g n),
                                           name := (if truthy (name (g n)) then
                                                      (case name (g p) of None \<Rightarrow> name (g n)
                                                       | Some pn \<Rightarrow> Some (pn @ ''|'' @ the (name (g n))))
                                                    else name (g p))\<rparr>), q') \<and>
                    (\<forall>c. q' c = (if c \<in> set (clades (g n)) then Some p else q c))"
    by blast
next
  fix g :: heap and q :: parents and n
  assume "branch_length (g n) = None \<or> n = rt \<or> (\<exists>b. branch_length (g n) = Some b \<and> minlen < b)"
  then have "skip_node rt minlen g n" by (auto simp: skip_node_def split: option.splits)
  then show "splice_node rt minlen (g, q) n = Inr (g, q)" by (rule splice_node_skip)
qed

theorem remove_internal_branches_iff_witness:
  "tree_nodes ex_spliced 0 {0, 1, 2, 3, 4} ex_rank \<and>
   get_parents ex_spliced 0 = Some ex_spliced_parents \<and>
   prune_tips (1 / 2) ex_spliced_parents ex_spliced 0 = Some (Inr ex_spliced_pruned) \<and>
   (\<exists>ws h2 ps2 vs.
      preorder_traverse ex_spliced_pruned [0] = Some ws \<and>
      remove_internal_branches (1 / 2) ex_spliced_parents ex_spliced_pruned 0 = Some (Inr (h2, ps2)) \<and>
      preorder_traverse h2 [0] = Some vs \<and> 0 \<in> set vs)"
proof -
  from remove_internal_branches_iff[OF ex_spliced_tree ex_spliced_get_parents ex_spliced_prune,
      THEN conjunct1]
  obtain ws h2 ps2 vs where r: "preorder_traverse ex_spliced_pruned [0] = Some ws"
    "remove_internal_branches (1 / 2) ex_spliced_parents ex_spliced_pruned 0 = Some (Inr (h2, ps2))"
    "preorder_traverse h2 [0] = Some vs" "0 \<in> set vs"
    by (elim exE conjE) (rule that; assumption)
  have "\<exists>ws h2 ps2 vs.
      preorder_traverse ex_spliced_pruned [0] = Some ws \<and>
      remove_internal_branches (1 / 2) ex_spliced_parents ex_spliced_pruned 0 = Some (Inr (h2, ps2)) \<and>
      preorder_traverse h2 [0] = Some vs \<and> 0 \<in> set vs"
    using r by blast
  then show ?thesis
    by (intro conjI) (rule ex_spliced_tree, rule ex_spliced_get_parents, rule ex_spliced_prune)
qed

section \<open>The first pass\<close>

text \<open>
  C8. On a tree whose root has children and whose tips carry a branch length and a
  name, the first pass returns; a tip with branch length \<open>b \<le> minlen\<close>, equality
  included, is no node of the returned tree and stands in no child list of it; a tip
  with \<open>minlen < b\<close> is a node of the returned tree and its object is unchanged; nodes
  with children all stay. One step of the loop on a tip \<open>t\<close> with parent \<open>p\<close> and
  \<open>b \<le> minlen\<close> removes \<open>t\<close> from the child list of \<open>p\<close> and sets the name of \<open>p\<close> to
  the name of \<open>t\<close> when \<open>p\<close> has none, and to both joined by \<^verbatim>\<open>|\<close> otherwise; with
  \<open>minlen < b\<close> the step changes nothing.
\<close>

theorem prune_tips_threshold:
  assumes T: "tree_nodes h rt S rk" and ps: "get_parents h rt = Some ps"
    and inner: "\<not> is_terminal h rt"
    and td: "tips_defined h S"
  shows "(\<exists>h1 vs. prune_tips minlen ps h rt = Some (Inr h1) \<and>
           preorder_traverse h1 [rt] = Some vs \<and> set vs \<subseteq> S \<and>
           (\<forall>t\<in>S. \<forall>b. is_terminal h t \<and> branch_length (h t) = Some b \<longrightarrow>
              (b \<le> minlen \<longrightarrow> t \<notin> set vs \<and> (\<forall>v\<in>set vs. t \<notin> set (clades (h1 v)))) \<and>
              (minlen < b \<longrightarrow> t \<in> set vs \<and> h1 t = h t)) \<and>
           (\<forall>v\<in>S. \<not> is_terminal h v \<longrightarrow> v \<in> set vs)) \<and>
         (\<forall>g q t p b tn.
            q t = Some p \<and> t \<in> set (clades (g p)) \<and> p \<noteq> t \<and>
            branch_length (g t) = Some b \<and> name (g t) = Some tn \<longrightarrow>
              (b \<le> minlen \<longrightarrow>
                 prune_tip minlen q g t =
                   Inr (g(p := (g p)\<lparr>clades := remove1 t (clades (g p)),
                                        name := (case name (g p) of None \<Rightarrow> Some tn
                                                 | Some pn \<Rightarrow> Some (pn @ ''|'' @ tn))\<rparr>))) \<and>
              (minlen < b \<longrightarrow> prune_tip minlen q g t = Inr g))"
proof (intro conjI allI impI)
  have P: "parents_ok h rt S ps" by (rule get_parents_ok[OF T ps])
  from get_terminals_tree[OF T] obtain tips where tips: "get_terminals h rt = Some tips"
    "set tips = {t \<in> S. clades (h t) = []}" "distinct tips" by blast
  have "\<exists>h1. for_each (prune_tip minlen ps) h tips = Inr h1"
    by (rule pass1_loop_total[OF T P tips(2,3)])
       (use tips(2) td inner in \<open>auto simp: is_terminal_def tips_defined_def\<close>)
  then obtain h1 where h1: "for_each (prune_tip minlen ps) h tips = Inr h1" by blast
  from pass1_loop[OF T P tips(2,3) h1] obtain S1 where
    S1: "tree_nodes h1 rt S1 rk" "S1 \<subseteq> S"
      "\<forall>n. clades (h n) = [] \<longrightarrow> h1 n = h n"
      "\<forall>n\<in>S. clades (h1 n) = filter (\<lambda>c. c \<in> S1) (clades (h n))"
      "S - S1 = {t \<in> set tips - set []. \<not> long_branch minlen h t}"
    unfolding pass1_inv_def by blast
  from preorder_tree[OF S1(1)] obtain vs where vs: "preorder_traverse h1 [rt] = Some vs" "set vs = S1"
    by blast
  have run: "prune_tips minlen ps h rt = Some (Inr h1)" using tips(1) h1 by (simp add: prune_tips_def)
  have short: "t \<notin> S1 \<and> (\<forall>v\<in>S1. t \<notin> set (clades (h1 v)))"
    if "t \<in> S" "is_terminal h t" "branch_length (h t) = Some b" "b \<le> minlen" for t b
  proof -
    have "\<not> long_branch minlen h t" using that(3,4) by (simp add: long_branch_def)
    then have "t \<notin> S1" using that(1,2) S1(5) tips(2) by (auto simp: is_terminal_def)
    then show ?thesis using S1(2,4) by auto
  qed
  have long: "t \<in> S1 \<and> h1 t = h t"
    if "t \<in> S" "is_terminal h t" "branch_length (h t) = Some b" "minlen < b" for t b
  proof -
    have "long_branch minlen h t" using that(3,4) by (simp add: long_branch_def)
    then have "t \<in> S1" using that(1) S1(5) by auto
    then show ?thesis using S1(3) that(2) by (simp add: is_terminal_def)
  qed
  have keep: "v \<in> S1" if "v \<in> S" "\<not> is_terminal h v" for v
    using that S1(5) tips(2) by (auto simp: is_terminal_def)
  show "\<exists>h1 vs. prune_tips minlen ps h rt = Some (Inr h1) \<and>
           preorder_traverse h1 [rt] = Some vs \<and> set vs \<subseteq> S \<and>
           (\<forall>t\<in>S. \<forall>b. is_terminal h t \<and> branch_length (h t) = Some b \<longrightarrow>
              (b \<le> minlen \<longrightarrow> t \<notin> set vs \<and> (\<forall>v\<in>set vs. t \<notin> set (clades (h1 v)))) \<and>
              (minlen < b \<longrightarrow> t \<in> set vs \<and> h1 t = h t)) \<and>
           (\<forall>v\<in>S. \<not> is_terminal h v \<longrightarrow> v \<in> set vs)"
  proof (rule exI[of _ h1], rule exI[of _ vs], intro conjI)
    show "prune_tips minlen ps h rt = Some (Inr h1)" by (rule run)
    show "preorder_traverse h1 [rt] = Some vs" by (rule vs(1))
    show "set vs \<subseteq> S" using vs(2) S1(2) by simp
    show "\<forall>t\<in>S. \<forall>b. is_terminal h t \<and> branch_length (h t) = Some b \<longrightarrow>
              (b \<le> minlen \<longrightarrow> t \<notin> set vs \<and> (\<forall>v\<in>set vs. t \<notin> set (clades (h1 v)))) \<and>
              (minlen < b \<longrightarrow> t \<in> set vs \<and> h1 t = h t)"
      unfolding vs(2) using short long by blast
    show "\<forall>v\<in>S. \<not> is_terminal h v \<longrightarrow> v \<in> set vs" unfolding vs(2) using keep by blast
  qed
next
  fix g :: heap and q :: parents and t p b tn
  assume a: "q t = Some p \<and> t \<in> set (clades (g p)) \<and> p \<noteq> t \<and>
            branch_length (g t) = Some b \<and> name (g t) = Some tn"
  { assume "b \<le> minlen"
    then have "\<not> minlen < b" by simp
    with a show "prune_tip minlen q g t =
                   Inr (g(p := (g p)\<lparr>clades := remove1 t (clades (g p)),
                                        name := (case name (g p) of None \<Rightarrow> Some tn
                                                 | Some pn \<Rightarrow> Some (pn @ ''|'' @ tn))\<rparr>))"
      using prune_tip_prune[of g t b minlen q p tn] by blast }
  { assume "minlen < b"
    with a show "prune_tip minlen q g t = Inr g" using prune_tip_keep[of g t b minlen q] by blast }
qed

theorem prune_tips_threshold_witness:
  "tree_nodes ex_spliced 0 {0, 1, 2, 3, 4} ex_rank \<and>
   get_parents ex_spliced 0 = Some ex_spliced_parents \<and>
   \<not> is_terminal ex_spliced 0 \<and>
   tips_defined ex_spliced {0, 1, 2, 3, 4} \<and>
   (\<exists>h1 vs. prune_tips (1 / 2) ex_spliced_parents ex_spliced 0 = Some (Inr h1) \<and>
      preorder_traverse h1 [0] = Some vs \<and> 2 \<notin> set vs \<and> 3 \<in> set vs \<and> h1 3 = ex_spliced 3)"
proof -
  have a: "is_terminal ex_spliced 2 \<and> branch_length (ex_spliced 2) = Some 0"
    and b: "is_terminal ex_spliced 3 \<and> branch_length (ex_spliced 3) = Some (6 / 10)"
    by (simp_all add: ex_spliced_def collapse_eval)
  from prune_tips_threshold[OF ex_spliced_tree ex_spliced_get_parents ex_spliced_inner
      ex_spliced_tips_defined, of "1 / 2", THEN conjunct1]
  obtain h1 vs where r: "prune_tips (1 / 2) ex_spliced_parents ex_spliced 0 = Some (Inr h1)"
    "preorder_traverse h1 [0] = Some vs"
    "\<forall>t\<in>{0, 1, 2, 3, 4}. \<forall>b. is_terminal ex_spliced t \<and> branch_length (ex_spliced t) = Some b \<longrightarrow>
              (b \<le> 1 / 2 \<longrightarrow> t \<notin> set vs \<and> (\<forall>v\<in>set vs. t \<notin> set (clades (h1 v)))) \<and>
              (1 / 2 < b \<longrightarrow> t \<in> set vs \<and> h1 t = ex_spliced t)"
    by (elim exE conjE) (rule that; assumption)
  have "2 \<notin> set vs" using r(3)[rule_format, of 2 0] a by simp
  moreover have "3 \<in> set vs \<and> h1 3 = ex_spliced 3" using r(3)[rule_format, of 3 "6 / 10"] b by simp
  ultimately have "\<exists>h1 vs. prune_tips (1 / 2) ex_spliced_parents ex_spliced 0 = Some (Inr h1) \<and>
      preorder_traverse h1 [0] = Some vs \<and> 2 \<notin> set vs \<and> 3 \<in> set vs \<and> h1 3 = ex_spliced 3"
    using r(1,2) by blast
  then show ?thesis
    by (intro conjI) (rule ex_spliced_tree, rule ex_spliced_get_parents, rule ex_spliced_inner,
      rule ex_spliced_tips_defined)
qed

section \<open>Internal nodes named by the empty string\<close>

text \<open>
  C6. The claim: an internal node whose name is \<^verbatim>\<open>None\<close> or the empty string is
  unsampled and gets \<^verbatim>\<open>labels = []\<close> without error. On a tree whose root is named
  \<^verbatim>\<open>''\<close>, with both tips in the label table, \<^verbatim>\<open>annotate_tree\<close> splits the empty name
  into the one identifier \<^verbatim>\<open>''\<close>, looks it up and raises \<^verbatim>\<open>KeyError\<close>.
\<close>

theorem annotate_empty_name_raises:
  "annotate_tree ex_empty_name 0 ex_table (1 / 2) False = Some ([], Inl KeyError)"
  by (simp add: ex_table_def ex_empty_name_def annotate_eval)

section \<open>Identifiers that the table does not hold\<close>

text \<open>
  C7. The validation of \<^verbatim>\<open>annotate_tree\<close> does not raise and does not change the outcome:
  with and without a callback the tree or the error returned is the same, and the one
  diagnostic is emitted exactly when a callback is given and some tip of the tree before
  collapsing has a name that is no key of the table. Every lookup is hard: labelling a
  tip or an internal node one of whose identifiers is no key of the table returns
  \<^verbatim>\<open>KeyError\<close>, so when \<^verbatim>\<open>annotate_tree\<close> returns a tree, every identifier of every tip and
  of every named internal node of the collapsed tree is a key of the table.
\<close>

theorem annotate_missing_label:
  "map_option snd (annotate_tree h rt d minlen cb) =
     map_option snd (annotate_tree h rt d minlen False) \<and>
   (\<forall>msgs r. annotate_tree h rt d minlen cb = Some (msgs, r) \<longrightarrow>
      (\<exists>tips0. get_terminals h rt = Some tips0 \<and>
         msgs = (if cb \<and> set_diff d h tips0 \<noteq> [] then [Mismatch (set_diff d h tips0)] else []) \<and>
         (set_diff d h tips0 = [] \<longleftrightarrow>
            (\<forall>t\<in>set tips0. \<exists>n. name (h t) = Some n \<and> n \<in> dom d)))) \<and>
   (\<forall>g t n x. name (g t) = Some n \<and> x \<in> set (tip_identifiers n) \<and> d x = None \<longrightarrow>
      label_tip d g t = Inl KeyError) \<and>
   (\<forall>g v n x. name (g v) = Some n \<and> x \<in> set (split_bar n) \<and> d x = None \<longrightarrow>
      label_node d g v = Inl KeyError) \<and>
   (\<forall>msgs h'. annotate_tree h rt d minlen cb = Some (msgs, Inr h') \<longrightarrow>
      (\<exists>h1 tips h2 ns. collapse_polytomies h rt minlen = Some (Inr h1) \<and>
         get_terminals h1 rt = Some tips \<and> for_each (label_tip d) h1 tips = Inr h2 \<and>
         get_nonterminals h2 rt = Some ns \<and> for_each (label_node d) h2 ns = Inr h' \<and>
         (\<forall>t\<in>set tips. \<exists>n. name (h1 t) = Some n \<and> set (tip_identifiers n) \<subseteq> dom d) \<and>
         (\<forall>v\<in>set ns. \<forall>n. name (h1 v) = Some n \<longrightarrow> set (split_bar n) \<subseteq> dom d)))"
proof (intro conjI allI impI)
  show "map_option snd (annotate_tree h rt d minlen cb) =
     map_option snd (annotate_tree h rt d minlen False)"
    by (rule annotate_tree_outcome)
next
  fix msgs r assume "annotate_tree h rt d minlen cb = Some (msgs, r)"
  from annotate_tree_log[OF this] obtain tips0 where
    t: "get_terminals h rt = Some tips0" "msgs = validate d h tips0 cb" by blast
  show "\<exists>tips0. get_terminals h rt = Some tips0 \<and>
         msgs = (if cb \<and> set_diff d h tips0 \<noteq> [] then [Mismatch (set_diff d h tips0)] else []) \<and>
         (set_diff d h tips0 = [] \<longleftrightarrow>
            (\<forall>t\<in>set tips0. \<exists>n. name (h t) = Some n \<and> n \<in> dom d))"
    by (rule exI[of _ tips0]) (use t set_diff_empty_iff[of d h tips0] in \<open>auto simp: validate_def\<close>)
next
  fix g :: heap and t n x assume "name (g t) = Some n \<and> x \<in> set (tip_identifiers n) \<and> d x = None"
  then show "label_tip d g t = Inl KeyError" using label_tip_missing by blast
next
  fix g :: heap and v n x assume "name (g v) = Some n \<and> x \<in> set (split_bar n) \<and> d x = None"
  then show "label_node d g v = Inl KeyError" using label_node_missing by blast
next
  fix msgs h' assume "annotate_tree h rt d minlen cb = Some (msgs, Inr h')"
  then show "\<exists>h1 tips h2 ns. collapse_polytomies h rt minlen = Some (Inr h1) \<and>
         get_terminals h1 rt = Some tips \<and> for_each (label_tip d) h1 tips = Inr h2 \<and>
         get_nonterminals h2 rt = Some ns \<and> for_each (label_node d) h2 ns = Inr h' \<and>
         (\<forall>t\<in>set tips. \<exists>n. name (h1 t) = Some n \<and> set (tip_identifiers n) \<subseteq> dom d) \<and>
         (\<forall>v\<in>set ns. \<forall>n. name (h1 v) = Some n \<longrightarrow> set (split_bar n) \<subseteq> dom d)"
    by (rule annotate_tree_found)
qed

theorem annotate_missing_label_witness:
  "annotate_tree ex_spliced 0 ex_table (1 / 2) True = Some ([Mismatch [Some ''C'']], Inl KeyError) \<and>
   map_option snd (annotate_tree ex_spliced 0 ex_table (1 / 2) False) = Some (Inl KeyError) \<and>
   label_tip ex_table ex_spliced_collapsed 4 = Inl KeyError \<and>
   label_node ex_table ex_spliced_collapsed 4 = Inl KeyError \<and>
   annotate_tree ex_emptied 0 ex_table (1 / 2) True = Some ([], Inr ex_emptied_annotated) \<and>
   set (tip_identifiers ''A|B'') \<subseteq> dom ex_table"
proof -
  note failing = annotate_missing_label[of ex_spliced 0 ex_table "1 / 2" True]
  note passing = annotate_missing_label[of ex_emptied 0 ex_table "1 / 2" True]
  have soft: "map_option snd (annotate_tree ex_spliced 0 ex_table (1 / 2) False) = Some (Inl KeyError)"
    using failing[THEN conjunct1] by (simp add: ex_spliced_annotate)
  have nm: "name (ex_spliced_collapsed 4) = Some ''C''"
    by (simp add: ex_spliced_collapsed_def ex_spliced_def new_clade_def)
  have ids: "''C'' \<in> set (tip_identifiers ''C'')" "''C'' \<in> set (split_bar ''C'')"
    "ex_table ''C'' = None"
    by (simp_all add: tip_identifiers_def ex_table_def)
  have tip: "label_tip ex_table ex_spliced_collapsed 4 = Inl KeyError"
    using failing[THEN conjunct2, THEN conjunct2, THEN conjunct1, rule_format,
      of ex_spliced_collapsed 4 "''C''" "''C''"] nm ids by simp
  have node: "label_node ex_table ex_spliced_collapsed 4 = Inl KeyError"
    using failing[THEN conjunct2, THEN conjunct2, THEN conjunct2, THEN conjunct1, rule_format,
      of ex_spliced_collapsed 4 "''C''" "''C''"] nm ids by simp
  from passing[THEN conjunct2, THEN conjunct2, THEN conjunct2, THEN conjunct2, rule_format,
      OF ex_emptied_annotate]
  obtain h1 tips where
    r: "collapse_polytomies ex_emptied 0 (1 / 2) = Some (Inr h1)" "get_terminals h1 0 = Some tips"
       "\<forall>t\<in>set tips. \<exists>n. name (h1 t) = Some n \<and> set (tip_identifiers n) \<subseteq> dom ex_table"
    by (elim exE conjE) (rule that; assumption)
  from r(1) have h1: "h1 = ex_emptied_collapsed" by (simp add: ex_emptied_collapse)
  from r(2) have tips: "tips = [1]" by (simp add: h1 ex_emptied_collapsed_tips)
  have "name (ex_emptied_collapsed 1) = Some ''A|B''"
    by (simp add: ex_emptied_collapsed_def new_clade_def)
  with r(3) have found: "set (tip_identifiers ''A|B'') \<subseteq> dom ex_table"
    by (simp add: h1 tips)
  show ?thesis
    using ex_spliced_annotate soft tip node ex_emptied_annotate found by simp
qed

section \<open>The variant of a sampled node\<close>

text \<open>
  C5. For a node with a non-empty list of labels, a step of \<^verbatim>\<open>serialize_tree\<close> that returns
  has split every label at \<^verbatim>\<open>|\<close> and reversed its fields, sorted these lists in ascending
  order (the result is sorted, a permutation of them, and its first list is least), taken
  the field of index 3 of the first list as the variant of the node, and recorded the
  sorted list under that variant; the counter of unsampled nodes is unchanged. The labels
  \<^verbatim>\<open>B|acc2|r|c|2021-02-01\<close> and \<^verbatim>\<open>A|acc1|r|c|2021-01-01\<close> give the variant \<^verbatim>\<open>acc1\<close>.
\<close>

theorem serialize_node_variant:
  assumes ls: "labels (h node) = Some ls" "ls \<noteq> []"
    and run: "serialize_node h rt ps (obj, variant_d, us) node = Inr (obj', variant_d', us')"
  shows "node_variant us ls = Inr (hd (sort (reversed_fields ls)) ! 3, sort (reversed_fields ls), us) \<and>
         variant_d' node = Some (hd (sort (reversed_fields ls)) ! 3) \<and>
         map_of (nodes obj') (hd (sort (reversed_fields ls)) ! 3) = Some (sort (reversed_fields ls)) \<and>
         sorted (sort (reversed_fields ls)) \<and>
         mset (sort (reversed_fields ls)) = mset (reversed_fields ls) \<and>
         (\<forall>t\<in>set (reversed_fields ls). hd (sort (reversed_fields ls)) \<le> t) \<and>
         3 < length (hd (sort (reversed_fields ls))) \<and> us' = us"
proof -
  from run ls(1) obtain variant intermed where
    nv: "node_variant us ls = Inr (variant, intermed, us')"
    and vd: "variant_d' = variant_d(node \<mapsto> variant)"
    and nd: "nodes obj' = AList.update variant intermed (nodes obj)"
    by (auto simp: serialize_node_def Let_def split: sum.splits option.splits if_splits prod.splits)
  from node_variant_sampled[OF ls(2) nv] have
    e: "intermed = sort (reversed_fields ls)" "variant = hd intermed ! 3"
       "3 < length (hd intermed)" "us' = us" by auto
  show ?thesis
    using e vd nd nv by (auto simp: map_of_update_same sort_hd_least)
qed

theorem serialize_node_variant_witness:
  "serialize_node ex_two_labels 0 Map.empty (\<lparr>nodes = [], edges = []\<rparr>, Map.empty, 0) 0 =
     Inr (\<lparr>nodes = [(''acc1'', [[''2021-01-01'', ''c'', ''r'', ''acc1'', ''A''],
                                 [''2021-02-01'', ''c'', ''r'', ''acc2'', ''B'']])],
           edges = []\<rparr>, [0 \<mapsto> ''acc1''], 0) \<and>
   node_variant 0 [''B|acc2|r|c|2021-02-01'', ''A|acc1|r|c|2021-01-01''] =
     Inr (''acc1'', [[''2021-01-01'', ''c'', ''r'', ''acc1'', ''A''],
                     [''2021-02-01'', ''c'', ''r'', ''acc2'', ''B'']], 0)"
proof -
  have l: "labels (ex_two_labels 0) = Some [''B|acc2|r|c|2021-02-01'', ''A|acc1|r|c|2021-01-01'']"
    by (simp add: ex_two_labels_def new_clade_def)
  have n: "[''B|acc2|r|c|2021-02-01'', ''A|acc1|r|c|2021-01-01''] \<noteq> []" by simp
  from serialize_node_variant[OF l n ex_two_labels_node]
  have "node_variant 0 [''B|acc2|r|c|2021-02-01'', ''A|acc1|r|c|2021-01-01''] =
     Inr (hd (sort (reversed_fields [''B|acc2|r|c|2021-02-01'', ''A|acc1|r|c|2021-01-01''])) ! 3,
          sort (reversed_fields [''B|acc2|r|c|2021-02-01'', ''A|acc1|r|c|2021-01-01'']), 0)"
    by (rule conjunct1)
  then have "node_variant 0 [''B|acc2|r|c|2021-02-01'', ''A|acc1|r|c|2021-01-01''] =
     Inr (''acc1'', [[''2021-01-01'', ''c'', ''r'', ''acc1'', ''A''],
                     [''2021-02-01'', ''c'', ''r'', ''acc2'', ''B'']], 0)"
    by (simp add: ex_two_labels_sorted)
  then show ?thesis using ex_two_labels_node by (rule conjI[rotated])
qed

section \<open>The numbering of unsampled nodes\<close>

text \<open>
  C9. When \<^verbatim>\<open>serialize_tree\<close> returns on a tree, the level-order traversal visits every
  node once, and the node at position \<open>i\<close> with an empty list of labels has the
  identifier \<^verbatim>\<open>unsampled\<close> followed by the number of such nodes before position \<open>i\<close>, which
  is a key of the node map; the counter ends at the number of such nodes. On the tree
  with three such nodes ahead of two sampled tips the identifiers are \<^verbatim>\<open>unsampled0\<close>,
  \<^verbatim>\<open>unsampled1\<close> and \<^verbatim>\<open>unsampled2\<close>.
\<close>

theorem serialize_unsampled_numbering:
  assumes T: "tree_nodes h rt S rk"
    and run: "serialize_loop h rt = Some (Inr (obj, vd, us))"
  shows "\<exists>order. level_traverse h [rt] = Some order \<and> set order = S \<and> distinct order \<and>
           (\<forall>i<length order. labels (h (order ! i)) = Some [] \<longrightarrow>
              vd (order ! i) = Some (''unsampled'' @ str (unsampled_before h order i)) \<and>
              ''unsampled'' @ str (unsampled_before h order i) \<in> fst ` set (nodes obj)) \<and>
           us = length (filter (\<lambda>v. labels (h v) = Some []) order)"
proof -
  from level_tree_distinct[OF T] obtain order where
    o: "level_traverse h [rt] = Some order" "set order = S" "distinct order" by blast
  from serialize_numbering_order[OF o(1) o(3) run] show ?thesis using o by blast
qed

theorem serialize_unsampled_numbering_witness:
  "tree_nodes ex_unsampled 0 {0, 1, 2, 3, 4} ex_unsampled_rank \<and>
   level_traverse ex_unsampled [0] = Some [0, 1, 2, 3, 4] \<and>
   (\<exists>obj vd. serialize_loop ex_unsampled 0 = Some (Inr (obj, vd, 3)) \<and>
      vd 0 = Some ''unsampled0'' \<and> vd 1 = Some ''unsampled1'' \<and> vd 2 = Some ''unsampled2'' \<and>
      ''unsampled0'' \<in> fst ` set (nodes obj) \<and> ''unsampled1'' \<in> fst ` set (nodes obj) \<and>
      ''unsampled2'' \<in> fst ` set (nodes obj))"
proof -
  from ex_unsampled_loop obtain obj vd where
    run: "serialize_loop ex_unsampled 0 = Some (Inr (obj, vd, 3))" by blast
  from serialize_unsampled_numbering[OF ex_unsampled_tree run] obtain order where
    o: "level_traverse ex_unsampled [0] = Some order"
    and r: "\<forall>i<length order. labels (ex_unsampled (order ! i)) = Some [] \<longrightarrow>
              vd (order ! i) = Some (''unsampled'' @ str (unsampled_before ex_unsampled order i)) \<and>
              ''unsampled'' @ str (unsampled_before ex_unsampled order i) \<in> fst ` set (nodes obj)"
    by blast
  from o have order: "order = [0, 1, 2, 3, 4]" by (simp add: ex_unsampled_level)
  have l: "labels (ex_unsampled 0) = Some []" "labels (ex_unsampled 1) = Some []"
    "labels (ex_unsampled 2) = Some []"
    by (simp_all add: ex_unsampled_def new_clade_def)
  have u: "unsampled_before ex_unsampled [0, 1, 2, 3, 4] 0 = 0"
    "unsampled_before ex_unsampled [0, 1, 2, 3, 4] 1 = 1"
    "unsampled_before ex_unsampled [0, 1, 2, 3, 4] 2 = 2"
    by (simp_all add: unsampled_before_def ex_unsampled_def new_clade_def)
  have s: "str 0 = ''0''" "str 1 = ''1''" "str 2 = ''2''"
    by (simp_all add: str.simps digit_def)
  have a0: "vd 0 = Some ''unsampled0'' \<and> ''unsampled0'' \<in> fst ` set (nodes obj)"
    using r[rule_format, of 0] l(1) u(1) s(1) by (simp add: order)
  have a1: "vd 1 = Some ''unsampled1'' \<and> ''unsampled1'' \<in> fst ` set (nodes obj)"
    using r[rule_format, of 1] l(2) u(2) s(2) by (simp add: order)
  have a2: "vd 2 = Some ''unsampled2'' \<and> ''unsampled2'' \<in> fst ` set (nodes obj)"
    using r[rule_format, of 2] l(3) u(3) s(3) by (simp add: order)
  have "serialize_loop ex_unsampled 0 = Some (Inr (obj, vd, 3)) \<and>
      vd 0 = Some ''unsampled0'' \<and> vd 1 = Some ''unsampled1'' \<and> vd 2 = Some ''unsampled2'' \<and>
      ''unsampled0'' \<in> fst ` set (nodes obj) \<and> ''unsampled1'' \<in> fst ` set (nodes obj) \<and>
      ''unsampled2'' \<in> fst ` set (nodes obj)"
    using run a0 a1 a2 by simp
  then have "\<exists>obj vd. serialize_loop ex_unsampled 0 = Some (Inr (obj, vd, 3)) \<and>
      vd 0 = Some ''unsampled0'' \<and> vd 1 = Some ''unsampled1'' \<and> vd 2 = Some ''unsampled2'' \<and>
      ''unsampled0'' \<in> fst ` set (nodes obj) \<and> ''unsampled1'' \<in> fst ` set (nodes obj) \<and>
      ''unsampled2'' \<in> fst ` set (nodes obj)"
    by (rule_tac x = obj in exI, rule_tac x = vd in exI)
  with ex_unsampled_tree ex_unsampled_level show ?thesis by simp
qed

section \<open>Shared variant identifiers\<close>

text \<open>
  C10. \<^verbatim>\<open>serialize_tree\<close> does not keep the keys of the node map apart. When it returns on
  a tree, every node has an identifier that is a key of the node map, the keys are
  distinct, and there are as many entries as distinct identifiers: fewer than nodes as
  soon as two nodes share one. The entry of an identifier holds the samples of the last
  node in level order with that identifier, whatever an earlier node recorded. The edge
  list has one edge for every node other than the root, in level order, from the
  identifier of the parent to the identifier of the node, so that nodes that share an
  identifier are both named by it. In the example the root and the first tip share
  \<^verbatim>\<open>acc1\<close>; the entry holds the sample of the tip, the earlier one.
\<close>

theorem serialize_later_overwrites:
  assumes T: "tree_nodes h rt S rk"
    and run: "serialize_loop h rt = Some (Inr (obj, vd, us))"
  shows "\<exists>order ps. serialize_tree h rt = Some (Inr obj) \<and>
           level_traverse h [rt] = Some order \<and> set order = S \<and> distinct order \<and>
           get_parents h rt = Some ps \<and>
           (\<forall>v\<in>S. \<exists>k. vd v = Some k \<and> k \<in> fst ` set (nodes obj)) \<and>
           (\<forall>j<length order. \<forall>k.
              vd (order ! j) = Some k \<and> (\<forall>j'<length order. j < j' \<longrightarrow> vd (order ! j') \<noteq> Some k) \<longrightarrow>
              map_of (nodes obj) k = Some (node_payload h (order ! j))) \<and>
           distinct (map fst (nodes obj)) \<and> length (nodes obj) = card (vd ` S) \<and>
           (\<forall>u\<in>S. \<forall>v\<in>S. u \<noteq> v \<and> vd u = vd v \<longrightarrow> length (nodes obj) < card S) \<and>
           edges obj = map (edge_of h ps vd) (filter (\<lambda>v. v \<noteq> rt) order) \<and>
           (\<forall>v\<in>S. v \<noteq> rt \<longrightarrow>
              (\<exists>p. ps v = Some p \<and> vd p \<noteq> None \<and> branch_length (h v) \<noteq> None))"
proof -
  from level_tree_distinct[OF T] obtain order where
    o: "level_traverse h [rt] = Some order" "set order = S" "distinct order" by blast
  from run o(1) obtain ps where ps: "get_parents h rt = Some ps"
    and loop: "for_each (serialize_node h rt ps) (\<lparr>nodes = [], edges = []\<rparr>, Map.empty, 0) order =
      Inr (obj, vd, us)"
    by (auto simp: serialize_loop_def split: option.splits)
  have fresh: "dom (Map.empty :: ref \<rightharpoonup> string) \<inter> set order = {}" by simp
  from serialize_overwrite_loop[OF loop o(3) fresh] have
    L2: "\<forall>v\<in>set order. vd v \<noteq> None"
    and L3: "\<forall>k. map_of (nodes obj) k =
            (if filter (\<lambda>v. vd v = Some k) order = [] then None
             else Some (node_payload h (last (filter (\<lambda>v. vd v = Some k) order))))"
    and L4: "distinct (map fst (nodes obj))"
    and L5: "fst ` set (nodes obj) = {k. \<exists>v\<in>set order. vd v = Some k}"
    and L6: "edges obj = map (edge_of h ps vd) (filter (\<lambda>v. v \<noteq> rt) order)"
    and L7: "\<forall>v\<in>set order. v \<noteq> rt \<longrightarrow>
            (\<exists>p. ps v = Some p \<and> vd p \<noteq> None \<and> branch_length (h v) \<noteq> None)"
    by simp_all
  have fin: "finite S" using tree_nodesD(1)[OF T] .
  have a: "\<forall>v\<in>S. \<exists>k. vd v = Some k \<and> k \<in> fst ` set (nodes obj)"
  proof
    fix v assume v: "v \<in> S"
    then obtain k where k: "vd v = Some k" using L2 o(2) by auto
    then have "k \<in> fst ` set (nodes obj)" using L5 o(2) v by blast
    then show "\<exists>k. vd v = Some k \<and> k \<in> fst ` set (nodes obj)" using k by blast
  qed
  have b: "map_of (nodes obj) k = Some (node_payload h (order ! j))"
    if "j < length order" "vd (order ! j) = Some k"
       "\<forall>j'<length order. j < j' \<longrightarrow> vd (order ! j') \<noteq> Some k" for j k
  proof -
    have l: "last (filter (\<lambda>v. vd v = Some k) order) = order ! j"
      by (rule last_filter_nth[OF that(1)]) (use that in auto)
    have "order ! j \<in> set (filter (\<lambda>v. vd v = Some k) order)" using that(1,2) by simp
    then have "filter (\<lambda>v. vd v = Some k) order \<noteq> []" by (metis empty_iff empty_set)
    then show ?thesis using L3[rule_format, of k] l by simp
  qed
  have img: "vd ` S = Some ` fst ` set (nodes obj)"
  proof -
    have "vd ` S = Some ` {k. \<exists>v\<in>S. vd v = Some k}"
    proof (intro set_eqI iffI)
      fix y assume "y \<in> vd ` S"
      then obtain v where v: "v \<in> S" "y = vd v" by blast
      then obtain k where "vd v = Some k" using L2 o(2) by auto
      then show "y \<in> Some ` {k. \<exists>v\<in>S. vd v = Some k}" using v by auto
    next
      fix y assume "y \<in> Some ` {k. \<exists>v\<in>S. vd v = Some k}"
      then obtain k v where "y = Some k" "v \<in> S" "vd v = Some k" by blast
      then show "y \<in> vd ` S" by (metis imageI)
    qed
    then show ?thesis using L5 o(2) by simp
  qed
  have len: "length (nodes obj) = card (vd ` S)"
  proof -
    have "length (nodes obj) = length (map fst (nodes obj))" by simp
    also have "\<dots> = card (set (map fst (nodes obj)))" using L4 by (rule distinct_card[symmetric])
    also have "\<dots> = card (Some ` fst ` set (nodes obj))" by (simp add: card_image)
    finally show ?thesis using img by simp
  qed
  have c: "\<forall>u\<in>S. \<forall>v\<in>S. u \<noteq> v \<and> vd u = vd v \<longrightarrow> length (nodes obj) < card S"
    using card_image_less[OF fin, of _ _ vd] len by auto
  have st: "serialize_tree h rt = Some (Inr obj)" using run by (simp add: serialize_tree_def)
  show ?thesis
    apply (rule exI[of _ order], rule exI[of _ ps])
    using st o ps a b L4 len c L6 L7 by simp
qed

theorem serialize_later_overwrites_witness:
  "tree_nodes ex_shared_reversed 0 {0, 1, 2} ex_rank \<and>
   level_traverse ex_shared_reversed [0] = Some [0, 1, 2] \<and>
   (\<exists>obj vd. serialize_loop ex_shared_reversed 0 = Some (Inr (obj, vd, 0)) \<and>
      vd 0 = Some ''acc1'' \<and> vd 1 = Some ''acc1'' \<and> vd 2 = Some ''acc9'' \<and>
      map_of (nodes obj) ''acc1'' = Some (node_payload ex_shared_reversed 1) \<and>
      node_payload ex_shared_reversed 1 = [[''2021-01-01'', ''c'', ''r'', ''acc1'', ''A'']] \<and>
      node_payload ex_shared_reversed 0 = [[''2021-01-02'', ''c'', ''r'', ''acc1'', ''B'']] \<and>
      length (nodes obj) < 3 \<and>
      edges obj = [(''acc1'', ''acc1'', 1, None), (''acc1'', ''acc9'', 2, None)])"
proof -
  define obj where "obj = \<lparr>nodes =
                  [(''acc1'', [[''2021-01-01'', ''c'', ''r'', ''acc1'', ''A'']]),
                   (''acc9'', [[''2021-01-03'', ''c'', ''r'', ''acc9'', ''C'']])],
                edges =
                  [(''acc1'', ''acc1'', 1, None),
                   (''acc1'', ''acc9'', 2, None :: rat option)]\<rparr>"
  define vd :: "ref \<rightharpoonup> string" where "vd = [0 \<mapsto> ''acc1'', 1 \<mapsto> ''acc1'', 2 \<mapsto> ''acc9'']"
  have run: "serialize_loop ex_shared_reversed 0 = Some (Inr (obj, vd, 0))"
    by (simp add: obj_def vd_def ex_shared_reversed_loop)
  have v: "vd 0 = Some ''acc1''" "vd 1 = Some ''acc1''" "vd 2 = Some ''acc9''"
    by (simp_all add: vd_def)
  from serialize_later_overwrites[OF ex_shared_reversed_tree run] obtain order where
    o: "level_traverse ex_shared_reversed [0] = Some order"
    and r: "\<forall>j<length order. \<forall>k.
              vd (order ! j) = Some k \<and> (\<forall>j'<length order. j < j' \<longrightarrow> vd (order ! j') \<noteq> Some k) \<longrightarrow>
              map_of (nodes obj) k = Some (node_payload ex_shared_reversed (order ! j))"
    and c: "\<forall>u\<in>{0, 1, 2}. \<forall>v\<in>{0, 1, 2}. u \<noteq> v \<and> vd u = vd v \<longrightarrow> length (nodes obj) < card {0 :: nat, 1, 2}"
    by (elim exE conjE) (rule that; assumption)
  from o have order: "order = [0, 1, 2]" by (simp add: ex_shared_reversed_level)
  have later: "\<forall>j'<length order. 1 < j' \<longrightarrow> vd (order ! j') \<noteq> Some ''acc1''"
  proof (intro allI impI)
    fix j' assume "j' < length order" "1 < j'"
    then have "j' = 2" by (simp add: order)
    then show "vd (order ! j') \<noteq> Some ''acc1''" by (simp add: order vd_def)
  qed
  have e: "map_of (nodes obj) ''acc1'' = Some (node_payload ex_shared_reversed 1)"
    using r[rule_format, of 1 "''acc1''"] later v(2) by (simp add: order)
  have n: "length (nodes obj) < 3"
    using c[rule_format, of 0 1] v by simp
  have p: "node_payload ex_shared_reversed 1 = [[''2021-01-01'', ''c'', ''r'', ''acc1'', ''A'']]"
    "node_payload ex_shared_reversed 0 = [[''2021-01-02'', ''c'', ''r'', ''acc1'', ''B'']]"
    by (simp_all add: node_payload_def reversed_fields_def ex_shared_reversed_def new_clade_def)
  have "serialize_loop ex_shared_reversed 0 = Some (Inr (obj, vd, 0)) \<and>
      vd 0 = Some ''acc1'' \<and> vd 1 = Some ''acc1'' \<and> vd 2 = Some ''acc9'' \<and>
      map_of (nodes obj) ''acc1'' = Some (node_payload ex_shared_reversed 1) \<and>
      node_payload ex_shared_reversed 1 = [[''2021-01-01'', ''c'', ''r'', ''acc1'', ''A'']] \<and>
      node_payload ex_shared_reversed 0 = [[''2021-01-02'', ''c'', ''r'', ''acc1'', ''B'']] \<and>
      length (nodes obj) < 3 \<and>
      edges obj = [(''acc1'', ''acc1'', 1, None), (''acc1'', ''acc9'', 2, None)]"
    using run v e n p by (simp add: obj_def)
  then have "\<exists>obj vd. serialize_loop ex_shared_reversed 0 = Some (Inr (obj, vd, 0)) \<and>
      vd 0 = Some ''acc1'' \<and> vd 1 = Some ''acc1'' \<and> vd 2 = Some ''acc9'' \<and>
      map_of (nodes obj) ''acc1'' = Some (node_payload ex_shared_reversed 1) \<and>
      node_payload ex_shared_reversed 1 = [[''2021-01-01'', ''c'', ''r'', ''acc1'', ''A'']] \<and>
      node_payload ex_shared_reversed 0 = [[''2021-01-02'', ''c'', ''r'', ''acc1'', ''B'']] \<and>
      length (nodes obj) < 3 \<and>
      edges obj = [(''acc1'', ''acc1'', 1, None), (''acc1'', ''acc9'', 2, None)]"
    by (rule_tac x = obj in exI, rule_tac x = vd in exI)
  with ex_shared_reversed_tree ex_shared_reversed_level show ?thesis by simp
qed

end
